theory Spec2Isabelle
  imports Main "HOL-Library.AList" "HOL-Library.Product_Lexorder" "HOL-Library.Option_ord"
begin


section \<open>Generic best-first search: the data model\<close>

text \<open>
  The development embeds \<^verbatim>\<open>framework/graph_search/best_first_search.py\<close>: the open
  queue \<^verbatim>\<open>SearchNodesPriorityQueue\<close>, the closed collection \<^verbatim>\<open>SearchNodesCollection\<close>
  and the engine \<^verbatim>\<open>BestFirstSearch.solve_problem\<close>.

  Python exceptions are values: every operation that can raise returns \<open>error + 'a\<close>,
  with \<open>Inl\<close> the exception. Costs and priorities are Python numbers; they are modelled
  as integers (only their linear order and addition are used). A Python dictionary is an
  association list with distinct keys, updated with \<open>AList.update\<close> and \<open>AList.delete\<close>
  and read with \<open>map_of\<close>. Python object identity of search nodes is equality of node
  values.
\<close>

datatype error = AssertionError | KeyError | IndexError | AttributeError | TypeError

text \<open>
  Modelled from the spec: the class \<^verbatim>\<open>SearchNode\<close> of \<^verbatim>\<open>graph_problem_interface.py\<close>
  is not among the sources. The spec gives its fields: the state, the parent back
  reference (none for the initial node), the cost and name of the operator that led to
  the node, the cumulative \<open>g_cost\<close> (the parent's \<open>g_cost\<close> plus the operator cost) and
  the expanding priority, which the engine assigns after the node is built.
\<close>

datatype 's SearchNode = SearchNode
  (state: 's)
  (parent_search_node: "'s SearchNode option")
  (operator_cost: int)
  (operator_name: "string option")
  (g_cost: int)
  (expanding_priority: "int option")

definition SearchNode_init ::
  "'s \<Rightarrow> 's SearchNode option \<Rightarrow> int \<Rightarrow> string option \<Rightarrow> 's SearchNode" where
  "SearchNode_init s par c nm =
     SearchNode s par c nm (case par of None \<Rightarrow> c | Some p \<Rightarrow> g_cost p + c) None"

text \<open>The assignment \<^verbatim>\<open>node.expanding_priority = v\<close>.\<close>

definition set_expanding_priority :: "'s SearchNode \<Rightarrow> int \<Rightarrow> 's SearchNode" where
  "set_expanding_priority n v =
     SearchNode (state n) (parent_search_node n) (operator_cost n) (operator_name n)
       (g_cost n) (Some v)"

text \<open>
  Modelled from the spec: \<^verbatim>\<open>SearchNode.make_states_path\<close> is not among the sources.
  The spec: the solution path is reconstructed by walking parent links from the goal
  node to the initial node and reversing; it is the ordered sequence of states.
\<close>

fun make_states_path :: "'s SearchNode \<Rightarrow> 's list" where
  "make_states_path (SearchNode s None c nm g p) = [s]"
| "make_states_path (SearchNode s (Some par) c nm g p) = make_states_path par @ [s]"

subsection \<open>The heap dictionary\<close>

text \<open>
  Modelled from the spec: \<^verbatim>\<open>utils/heapdict.py\<close> is not among the sources. It is a
  dictionary from keys to priorities: assigning a key stores its priority (replacing an
  older one), \<^verbatim>\<open>popitem\<close> removes and returns an entry of minimum priority and fails
  when there is none, \<^verbatim>\<open>peekitem\<close> returns that entry without removing it,
  \<^verbatim>\<open>pop(key)\<close> removes a given key and fails when it is absent. Among entries of equal
  priority the choice is left open by the spec; the model takes the first one in
  insertion order.
\<close>

type_synonym ('k, 'p) heapdict = "('k \<times> 'p) list"

fun heapdict_min :: "('k, 'p::linorder) heapdict \<Rightarrow> ('k \<times> 'p) option" where
  "heapdict_min [] = None"
| "heapdict_min (e # es) =
     (case heapdict_min es of
        None \<Rightarrow> Some e
      | Some m \<Rightarrow> if snd e \<le> snd m then Some e else Some m)"

definition heapdict_setitem :: "('k, 'p) heapdict \<Rightarrow> 'k \<Rightarrow> 'p \<Rightarrow> ('k, 'p) heapdict" where
  "heapdict_setitem h k p = AList.update k p h"

definition heapdict_popitem ::
  "('k, 'p::linorder) heapdict \<Rightarrow> error + (('k \<times> 'p) \<times> ('k, 'p) heapdict)" where
  "heapdict_popitem h =
     (case heapdict_min h of
        None \<Rightarrow> Inl IndexError
      | Some e \<Rightarrow> Inr (e, AList.delete (fst e) h))"

definition heapdict_peekitem :: "('k, 'p::linorder) heapdict \<Rightarrow> error + ('k \<times> 'p)" where
  "heapdict_peekitem h =
     (case heapdict_min h of None \<Rightarrow> Inl IndexError | Some e \<Rightarrow> Inr e)"

definition heapdict_pop :: "('k, 'p) heapdict \<Rightarrow> 'k \<Rightarrow> error + ('p \<times> ('k, 'p) heapdict)" where
  "heapdict_pop h k =
     (case map_of h k of
        None \<Rightarrow> Inl KeyError
      | Some p \<Rightarrow> Inr (p, AList.delete k h))"

definition heapdict_empty :: "('k, 'p) heapdict \<Rightarrow> bool" where
  "heapdict_empty h = (h = [])"

text \<open>The statement \<^verbatim>\<open>del d[k]\<close> on a Python dictionary.\<close>

definition dict_del :: "('k \<times> 'v) list \<Rightarrow> 'k \<Rightarrow> error + ('k \<times> 'v) list" where
  "dict_del d k =
     (case map_of d k of
        None \<Rightarrow> Inl KeyError
      | Some v \<Rightarrow> Inr (AList.delete k d))"

subsection \<open>The open queue\<close>

text \<open>
  The priority of a node in the heap dictionary is the tuple
  \<^verbatim>\<open>(node.expanding_priority, -node.g_cost, hash(node.state))\<close>, compared as Python
  compares tuples: lexicographically. The hash of a state belongs to the state's class;
  it is a parameter \<open>hash\<close> of the model.
\<close>

type_synonym node_key = "int option \<times> int \<times> int"

record 's SearchNodesPriorityQueue =
  nodes_queue :: "('s SearchNode, node_key) heapdict"
  state_to_search_node_mapping :: "('s \<times> 's SearchNode) list"

definition SearchNodesPriorityQueue_init :: "'s SearchNodesPriorityQueue" where
  "SearchNodesPriorityQueue_init =
     \<lparr>nodes_queue = [], state_to_search_node_mapping = []\<rparr>"

definition has_state :: "'s SearchNodesPriorityQueue \<Rightarrow> 's \<Rightarrow> bool" where
  "has_state q s = (map_of (state_to_search_node_mapping q) s \<noteq> None)"

definition get_node_by_state :: "'s SearchNodesPriorityQueue \<Rightarrow> 's \<Rightarrow> 's SearchNode option" where
  "get_node_by_state q s = map_of (state_to_search_node_mapping q) s"

definition node_key_of :: "('s \<Rightarrow> int) \<Rightarrow> 's SearchNode \<Rightarrow> node_key" where
  "node_key_of hash n = (expanding_priority n, - g_cost n, hash (state n))"

definition push_node ::
  "('s \<Rightarrow> int) \<Rightarrow> 's SearchNodesPriorityQueue \<Rightarrow> 's SearchNode
     \<Rightarrow> error + 's SearchNodesPriorityQueue" where
  "push_node hash q n =
     (if map_of (state_to_search_node_mapping q) (state n) \<noteq> None then Inl AssertionError
      else Inr \<lparr>nodes_queue = heapdict_setitem (nodes_queue q) n (node_key_of hash n),
                state_to_search_node_mapping =
                  AList.update (state n) n (state_to_search_node_mapping q)\<rparr>)"

definition pop_next_node ::
  "'s SearchNodesPriorityQueue \<Rightarrow> error + ('s SearchNode \<times> 's SearchNodesPriorityQueue)" where
  "pop_next_node q =
     (case heapdict_popitem (nodes_queue q) of
        Inl e \<Rightarrow> Inl e
      | Inr (entry, h) \<Rightarrow>
          (case dict_del (state_to_search_node_mapping q) (state (fst entry)) of
             Inl e \<Rightarrow> Inl e
           | Inr m \<Rightarrow>
               Inr (fst entry, \<lparr>nodes_queue = h, state_to_search_node_mapping = m\<rparr>)))"

definition peek_next_node :: "'s SearchNodesPriorityQueue \<Rightarrow> error + 's SearchNode" where
  "peek_next_node q =
     (case heapdict_peekitem (nodes_queue q) of Inl e \<Rightarrow> Inl e | Inr entry \<Rightarrow> Inr (fst entry))"

definition extract_node ::
  "'s SearchNodesPriorityQueue \<Rightarrow> 's SearchNode \<Rightarrow> error + 's SearchNodesPriorityQueue" where
  "extract_node q n =
     (case dict_del (state_to_search_node_mapping q) (state n) of
        Inl e \<Rightarrow> Inl e
      | Inr m \<Rightarrow>
          (case heapdict_pop (nodes_queue q) n of
             Inl e \<Rightarrow> Inl e
           | Inr (p, h) \<Rightarrow> Inr \<lparr>nodes_queue = h, state_to_search_node_mapping = m\<rparr>))"

definition is_empty :: "'s SearchNodesPriorityQueue \<Rightarrow> bool" where
  "is_empty q = heapdict_empty (nodes_queue q)"

definition queue_len :: "'s SearchNodesPriorityQueue \<Rightarrow> nat" where
  "queue_len q = length (nodes_queue q)"

subsection \<open>The closed collection\<close>

record 's SearchNodesCollection =
  close_state_to_search_node_mapping :: "('s \<times> 's SearchNode) list"

definition SearchNodesCollection_init :: "'s SearchNodesCollection" where
  "SearchNodesCollection_init = \<lparr>close_state_to_search_node_mapping = []\<rparr>"

definition add_node ::
  "'s SearchNodesCollection \<Rightarrow> 's SearchNode \<Rightarrow> error + 's SearchNodesCollection" where
  "add_node c n =
     (if map_of (close_state_to_search_node_mapping c) (state n) \<noteq> None then Inl AssertionError
      else Inr \<lparr>close_state_to_search_node_mapping =
                  AList.update (state n) n (close_state_to_search_node_mapping c)\<rparr>)"

definition remove_node ::
  "'s SearchNodesCollection \<Rightarrow> 's SearchNode \<Rightarrow> error + 's SearchNodesCollection" where
  "remove_node c n =
     (if map_of (close_state_to_search_node_mapping c) (state n) = None then Inl AssertionError
      else Inr \<lparr>close_state_to_search_node_mapping =
                  AList.delete (state n) (close_state_to_search_node_mapping c)\<rparr>)"

definition has_node :: "'s SearchNodesCollection \<Rightarrow> 's SearchNode \<Rightarrow> bool" where
  "has_node c n =
     (map_of (close_state_to_search_node_mapping c) (state n) \<noteq> None
      \<and> map_of (close_state_to_search_node_mapping c) (state n) = Some n)"

definition close_has_state :: "'s SearchNodesCollection \<Rightarrow> 's \<Rightarrow> bool" where
  "close_has_state c s = (map_of (close_state_to_search_node_mapping c) s \<noteq> None)"

definition close_get_node_by_state ::
  "'s SearchNodesCollection \<Rightarrow> 's \<Rightarrow> 's SearchNode option" where
  "close_get_node_by_state c s = map_of (close_state_to_search_node_mapping c) s"

definition close_len :: "'s SearchNodesCollection \<Rightarrow> nat" where
  "close_len c = length (close_state_to_search_node_mapping c)"

section \<open>The engine\<close>

text \<open>
  Modelled from the spec: \<^verbatim>\<open>GraphProblem\<close>, \<^verbatim>\<open>OperatorResult\<close>, \<^verbatim>\<open>StopReason\<close> and
  \<^verbatim>\<open>SearchResult\<close> of \<^verbatim>\<open>graph_problem_interface.py\<close> are not among the sources. A
  problem gives an initial state, a zero cost, a goal predicate and, for a state, the
  finite sequence of its operator results (successor state, operator cost, operator
  name). The hash of the problem's states is kept with the problem. The result holds the
  solution path (none when no goal was reached), the number of expanded states, the
  peak number of stored states and the stop reason; the references to the solver and the
  problem and the elapsed wall time are left out.
\<close>

datatype 's OperatorResult = OperatorResult
  (successor_state: 's)
  (operator_result_cost: int)
  (operator_result_name: "string option")

record 's GraphProblem =
  initial_state :: 's
  get_zero_cost :: int
  is_goal :: "'s \<Rightarrow> bool"
  expand_state_with_costs :: "'s \<Rightarrow> 's OperatorResult list"
  state_hash :: "'s \<Rightarrow> int"

datatype StopReason = CompletedRunSuccessfully | ExceededMaxNrStatesToExpand

record 's SearchResult =
  solution_path :: "'s list option"
  res_nr_expanded_states :: nat
  res_max_nr_stored_states :: nat
  stop_reason :: StopReason

text \<open>
  The two abstract methods of \<^verbatim>\<open>BestFirstSearch\<close> are parameters of the model. The
  scoring method is a function of the node. The admission method
  \<^verbatim>\<open>_open_successor_node\<close> works on \<^verbatim>\<open>self.open\<close> and \<^verbatim>\<open>self.close\<close>, and may raise:
  it takes the two collections and returns the updated ones or an error.
\<close>

record 's strategy =
  calc_node_expanding_priority :: "'s SearchNode \<Rightarrow> int"
  open_successor_node ::
    "'s GraphProblem \<Rightarrow> 's SearchNode \<Rightarrow> 's SearchNodesPriorityQueue
       \<Rightarrow> 's SearchNodesCollection option
       \<Rightarrow> error + ('s SearchNodesPriorityQueue \<times> 's SearchNodesCollection option)"

text \<open>The attributes of a \<^verbatim>\<open>BestFirstSearch\<close> object, as \<^verbatim>\<open>__init__\<close> sets them.\<close>

record 's BestFirstSearch =
  "open" :: "'s SearchNodesPriorityQueue option"
  close :: "'s SearchNodesCollection option"
  use_close :: bool
  max_nr_states_to_expand :: "int option"
  open_criterion :: "('s SearchNode \<Rightarrow> bool) option"
  max_nr_stored_states :: nat

definition BestFirstSearch_init ::
  "bool \<Rightarrow> int option \<Rightarrow> ('s SearchNode \<Rightarrow> bool) option \<Rightarrow> 's BestFirstSearch" where
  "BestFirstSearch_init uc k crit =
     \<lparr>open = None, close = None, use_close = uc, max_nr_states_to_expand = k,
      open_criterion = crit, max_nr_stored_states = 0\<rparr>"

text \<open>
  The local variables of \<^verbatim>\<open>solve_problem\<close>. The last field is a history variable of
  the verification, read by no definition: it collects the value of
  \<^verbatim>\<open>len(open) + len(close)\<close> after every step of the engine that changes a collection
  (the push of the initial node, every extraction, every handled successor).
\<close>

record 's solve_locals =
  final_search_node :: "'s SearchNode option"
  loc_nr_expanded_states :: nat
  loc_max_nr_stored_states :: nat
  exceeded_max_nr_expanded_states :: bool
  next_node_to_expand :: "'s SearchNode option"
  stored_history :: "nat list"

definition nr_stored :: "'s BestFirstSearch \<Rightarrow> nat" where
  "nr_stored S =
     (case open S of None \<Rightarrow> 0 | Some q \<Rightarrow> queue_len q)
     + (case close S of None \<Rightarrow> 0 | Some c \<Rightarrow> close_len c)"

text \<open>The closure \<^verbatim>\<open>_get_current_nr_stored_states\<close>; \<^verbatim>\<open>len(None)\<close> is a type error.\<close>

definition get_current_nr_stored_states :: "'s BestFirstSearch \<Rightarrow> error + nat" where
  "get_current_nr_stored_states S =
     (case open S of
        None \<Rightarrow> Inl TypeError
      | Some q \<Rightarrow> Inr (queue_len q + (case close S of None \<Rightarrow> 0 | Some c \<Rightarrow> close_len c)))"

text \<open>The default \<^verbatim>\<open>_extract_next_search_node_to_expand\<close>.\<close>

definition extract_next_search_node_to_expand ::
  "'s BestFirstSearch \<Rightarrow> 's GraphProblem
     \<Rightarrow> error + ('s SearchNode option \<times> 's BestFirstSearch)" where
  "extract_next_search_node_to_expand S P =
     (case open S of
        None \<Rightarrow> Inl AttributeError
      | Some q \<Rightarrow>
          if is_empty q then Inr (None, S)
          else
            (case pop_next_node q of
               Inl e \<Rightarrow> Inl e
             | Inr (node_to_expand, q') \<Rightarrow>
                 if use_close S then
                   (case close S of
                      None \<Rightarrow> Inl AttributeError
                    | Some c \<Rightarrow>
                        (case add_node c node_to_expand of
                           Inl e \<Rightarrow> Inl e
                         | Inr c' \<Rightarrow>
                             Inr (Some node_to_expand, S\<lparr>open := Some q', close := Some c'\<rparr>)))
                 else Inr (Some node_to_expand, S\<lparr>open := Some q'\<rparr>)))"

text \<open>The call \<^verbatim>\<open>self._open_successor_node(problem, successor_node)\<close>.\<close>

definition call_open_successor_node ::
  "'s strategy \<Rightarrow> 's GraphProblem \<Rightarrow> 's SearchNode \<Rightarrow> 's BestFirstSearch
     \<Rightarrow> error + 's BestFirstSearch" where
  "call_open_successor_node X P n S =
     (case open S of
        None \<Rightarrow> Inl AttributeError
      | Some q \<Rightarrow>
          (case open_successor_node X P n q (close S) of
             Inl e \<Rightarrow> Inl e
           | Inr (q', c') \<Rightarrow> Inr (S\<lparr>open := Some q', close := c'\<rparr>)))"

text \<open>The body of the \<^verbatim>\<open>for\<close> loop over the operator results, for one of them.\<close>

definition handle_operator_result ::
  "'s strategy \<Rightarrow> 's GraphProblem \<Rightarrow> 's SearchNode
     \<Rightarrow> 's BestFirstSearch \<times> 's solve_locals \<Rightarrow> 's OperatorResult
     \<Rightarrow> error + ('s BestFirstSearch \<times> 's solve_locals)" where
  "handle_operator_result X P next_node SL operator_result =
     (let S = fst SL; L = snd SL;
          created = SearchNode_init (successor_state operator_result) (Some next_node)
                      (operator_result_cost operator_result)
                      (operator_result_name operator_result);
          successor_node =
            set_expanding_priority created (calc_node_expanding_priority X created)
      in
        (case (if (case open_criterion S of None \<Rightarrow> True | Some crit \<Rightarrow> crit successor_node)
               then call_open_successor_node X P successor_node S
               else Inr S) of
           Inl e \<Rightarrow> Inl e
         | Inr S' \<Rightarrow>
             (case get_current_nr_stored_states S' of
                Inl e \<Rightarrow> Inl e
              | Inr k \<Rightarrow>
                  Inr (S', L\<lparr>loc_max_nr_stored_states := max (loc_max_nr_stored_states L) k,
                             stored_history := stored_history L @ [k]\<rparr>))))"

fun handle_operator_results ::
  "'s strategy \<Rightarrow> 's GraphProblem \<Rightarrow> 's SearchNode
     \<Rightarrow> 's BestFirstSearch \<times> 's solve_locals \<Rightarrow> 's OperatorResult list
     \<Rightarrow> error + ('s BestFirstSearch \<times> 's solve_locals)" where
  "handle_operator_results X P next_node SL [] = Inr SL"
| "handle_operator_results X P next_node SL (r # rs) =
     (case handle_operator_result X P next_node SL r of
        Inl e \<Rightarrow> Inl e
      | Inr SL' \<Rightarrow> handle_operator_results X P next_node SL' rs)"

text \<open>
  One iteration of \<^verbatim>\<open>while True\<close>: it ends the loop at a \<^verbatim>\<open>break\<close>, raises, or goes
  on to the next iteration.
\<close>

datatype 'a iteration = Break 'a | Continue 'a | Raise error

definition budget_reached :: "'s BestFirstSearch \<Rightarrow> 's solve_locals \<Rightarrow> bool" where
  "budget_reached S L =
     (case max_nr_states_to_expand S of
        None \<Rightarrow> False
      | Some k \<Rightarrow> int (loc_nr_expanded_states L) \<ge> k)"

definition loop_iteration ::
  "'s strategy \<Rightarrow> 's GraphProblem \<Rightarrow> 's BestFirstSearch \<times> 's solve_locals
     \<Rightarrow> ('s BestFirstSearch \<times> 's solve_locals) iteration" where
  "loop_iteration X P SL =
     (case extract_next_search_node_to_expand (fst SL) P of
        Inl e \<Rightarrow> Raise e
      | Inr (extracted, S) \<Rightarrow>
          (let L = (snd SL)\<lparr>next_node_to_expand := extracted,
                             stored_history := stored_history (snd SL) @ [nr_stored S]\<rparr>
           in
             (case extracted of
                None \<Rightarrow> Break (S, L)
              | Some n \<Rightarrow>
                  if is_goal P (state n) then Break (S, L\<lparr>final_search_node := Some n\<rparr>)
                  else if budget_reached S L
                  then Break (S, L\<lparr>exceeded_max_nr_expanded_states := True\<rparr>)
                  else
                    (case handle_operator_results X P n
                            (S, L\<lparr>loc_nr_expanded_states := loc_nr_expanded_states L + 1\<rparr>)
                            (expand_state_with_costs P (state n)) of
                       Inl e \<Rightarrow> Raise e
                     | Inr SL' \<Rightarrow> Continue SL'))))"

text \<open>
  The loop itself may run forever (an infinite graph, or an admission method that keeps
  reopening states): it is a partial function, and not returning is the value \<open>None\<close>.
\<close>

partial_function (option) search_loop ::
  "'s strategy \<Rightarrow> 's GraphProblem \<Rightarrow> 's BestFirstSearch \<times> 's solve_locals
     \<Rightarrow> (error + ('s BestFirstSearch \<times> 's solve_locals)) option" where
  "search_loop X P SL =
     (case loop_iteration X P SL of
        Break R \<Rightarrow> Some (Inr R)
      | Raise e \<Rightarrow> Some (Inl e)
      | Continue SL' \<Rightarrow> search_loop X P SL')"

declare search_loop.simps [code]

text \<open>
  \<^verbatim>\<open>solve_problem\<close> up to the end of the loop: the final object and the final values
  of the local variables. \<^verbatim>\<open>_init_solver\<close> is the default one, which does nothing.
\<close>

definition solve_run ::
  "'s strategy \<Rightarrow> 's BestFirstSearch \<Rightarrow> 's GraphProblem
     \<Rightarrow> (error + ('s BestFirstSearch \<times> 's solve_locals)) option" where
  "solve_run X S P =
     (let L0 = \<lparr>final_search_node = None, loc_nr_expanded_states = 0,
                loc_max_nr_stored_states = 0, exceeded_max_nr_expanded_states = False,
                next_node_to_expand = None, stored_history = []\<rparr>;
          S0 = S\<lparr>open := Some SearchNodesPriorityQueue_init,
                 close := (if use_close S then Some SearchNodesCollection_init else None)\<rparr>;
          created = SearchNode_init (initial_state P) None (get_zero_cost P) None;
          initial_search_node =
            set_expanding_priority created (calc_node_expanding_priority X created)
      in
        (case open S0 of
           None \<Rightarrow> Some (Inl AttributeError)
         | Some q \<Rightarrow>
             (case push_node (state_hash P) q initial_search_node of
                Inl e \<Rightarrow> Some (Inl e)
              | Inr q' \<Rightarrow>
                  (let S1 = S0\<lparr>open := Some q'\<rparr> in
                     (case get_current_nr_stored_states S1 of
                        Inl e \<Rightarrow> Some (Inl e)
                      | Inr k \<Rightarrow>
                          search_loop X P
                            (S1, L0\<lparr>loc_max_nr_stored_states :=
                                      max (loc_max_nr_stored_states L0) k,
                                    stored_history := stored_history L0 @ [k]\<rparr>))))))"

text \<open>The assembly of the \<^verbatim>\<open>SearchResult\<close> after the loop.\<close>

definition make_result :: "'s solve_locals \<Rightarrow> 's SearchResult" where
  "make_result L =
     \<lparr>solution_path = (case final_search_node L of
                          None \<Rightarrow> None
                        | Some n \<Rightarrow> Some (make_states_path n)),
      res_nr_expanded_states = loc_nr_expanded_states L,
      res_max_nr_stored_states = loc_max_nr_stored_states L,
      stop_reason = (if exceeded_max_nr_expanded_states L then ExceededMaxNrStatesToExpand
                     else CompletedRunSuccessfully)\<rparr>"

definition solve_problem ::
  "'s strategy \<Rightarrow> 's BestFirstSearch \<Rightarrow> 's GraphProblem
     \<Rightarrow> (error + ('s BestFirstSearch \<times> 's SearchResult)) option" where
  "solve_problem X S P =
     (case solve_run X S P of
        None \<Rightarrow> None
      | Some (Inl e) \<Rightarrow> Some (Inl e)
      | Some (Inr SL) \<Rightarrow> Some (Inr (fst SL, make_result (snd SL))))"

section \<open>Verification: definitions\<close>

subsection \<open>The invariant of the open queue\<close>

text \<open>
  The nodes of the priority structure, the invariant that ties it to the state mapping
  (distinct keys on both sides, and the mapping holds exactly the pairs \<open>(state n, n)\<close>
  of the nodes \<open>n\<close> of the priority structure), and the fact that every stored priority
  is the tuple of its node.
\<close>

definition queue_nodes :: "'s SearchNodesPriorityQueue \<Rightarrow> 's SearchNode set" where
  "queue_nodes q = fst ` set (nodes_queue q)"

definition queue_sync :: "'s SearchNodesPriorityQueue \<Rightarrow> bool" where
  "queue_sync q =
     (distinct (map fst (nodes_queue q))
      \<and> distinct (map fst (state_to_search_node_mapping q))
      \<and> set (state_to_search_node_mapping q) = (\<lambda>n. (state n, n)) ` fst ` set (nodes_queue q))"

definition queue_keys :: "('s \<Rightarrow> int) \<Rightarrow> 's SearchNodesPriorityQueue \<Rightarrow> bool" where
  "queue_keys hash q = list_all (\<lambda>e. snd e = node_key_of hash (fst e)) (nodes_queue q)"

text \<open>
  Sequences of queue operations, each performed under its precondition: a push of an
  absent state, a pop of a non-empty queue, the extraction of a present node. A sequence
  stops at the first operation that raises.
\<close>

datatype 's queue_op = PushNode "'s SearchNode" | PopNextNode | ExtractNode "'s SearchNode"

fun apply_queue_op ::
  "('s \<Rightarrow> int) \<Rightarrow> 's SearchNodesPriorityQueue \<Rightarrow> 's queue_op
     \<Rightarrow> error + 's SearchNodesPriorityQueue" where
  "apply_queue_op hash q (PushNode n) = push_node hash q n"
| "apply_queue_op hash q PopNextNode =
     (case pop_next_node q of Inl e \<Rightarrow> Inl e | Inr (n, q') \<Rightarrow> Inr q')"
| "apply_queue_op hash q (ExtractNode n) = extract_node q n"

fun queue_op_pre :: "'s SearchNodesPriorityQueue \<Rightarrow> 's queue_op \<Rightarrow> bool" where
  "queue_op_pre q (PushNode n) = (\<not> has_state q (state n))"
| "queue_op_pre q PopNextNode = (\<not> is_empty q)"
| "queue_op_pre q (ExtractNode n) = (get_node_by_state q (state n) = Some n)"

fun run_queue_ops ::
  "('s \<Rightarrow> int) \<Rightarrow> 's SearchNodesPriorityQueue \<Rightarrow> 's queue_op list
     \<Rightarrow> error + 's SearchNodesPriorityQueue" where
  "run_queue_ops hash q [] = Inr q"
| "run_queue_ops hash q (op # ops) =
     (case apply_queue_op hash q op of
        Inl e \<Rightarrow> Inl e
      | Inr q' \<Rightarrow> run_queue_ops hash q' ops)"

fun queue_ops_pre ::
  "('s \<Rightarrow> int) \<Rightarrow> 's SearchNodesPriorityQueue \<Rightarrow> 's queue_op list \<Rightarrow> bool" where
  "queue_ops_pre hash q [] = True"
| "queue_ops_pre hash q (op # ops) =
     (queue_op_pre q op \<and>
      (case apply_queue_op hash q op of
         Inl e \<Rightarrow> True
       | Inr q' \<Rightarrow> queue_ops_pre hash q' ops))"

subsection \<open>The run of the engine\<close>

text \<open>
  The configuration of the solver object: everything but \<open>open\<close> and \<open>close\<close>.
\<close>

definition same_config :: "'s BestFirstSearch \<Rightarrow> 's BestFirstSearch \<Rightarrow> bool" where
  "same_config S S' =
     (use_close S' = use_close S
      \<and> max_nr_states_to_expand S' = max_nr_states_to_expand S
      \<and> open_criterion S' = open_criterion S
      \<and> max_nr_stored_states S' = max_nr_stored_states S)"

text \<open>
  The state in which the loop is entered: the initial node, scored, is the only node of
  \<open>open\<close>; \<open>close\<close> is empty, or absent when \<open>use_close\<close> is off; one state is
  stored.
\<close>

definition solve_start ::
  "'s strategy \<Rightarrow> 's BestFirstSearch \<Rightarrow> 's GraphProblem
     \<Rightarrow> 's BestFirstSearch \<times> 's solve_locals" where
  "solve_start X S P =
     (let created = SearchNode_init (initial_state P) None (get_zero_cost P) None;
          initial_search_node =
            set_expanding_priority created (calc_node_expanding_priority X created)
      in (S\<lparr>open := Some \<lparr>nodes_queue =
                               [(initial_search_node,
                                 node_key_of (state_hash P) initial_search_node)],
                            state_to_search_node_mapping =
                               [(state initial_search_node, initial_search_node)]\<rparr>,
             close := (if use_close S then Some SearchNodesCollection_init else None)\<rparr>,
          \<lparr>final_search_node = None, loc_nr_expanded_states = 0,
           loc_max_nr_stored_states = 1, exceeded_max_nr_expanded_states = False,
           next_node_to_expand = None, stored_history = [1]\<rparr>))"

text \<open>
  The invariant of the loop, at the head of every iteration: the configuration is the
  one the run started with, no solution node is recorded, the budget flag is off, and
  the local peak is the maximum of the history and bounds the current number of stored
  states.
\<close>

definition run_inv :: "'s BestFirstSearch \<Rightarrow> 's BestFirstSearch \<times> 's solve_locals \<Rightarrow> bool" where
  "run_inv S0 T =
     (same_config S0 (fst T)
      \<and> final_search_node (snd T) = None
      \<and> \<not> exceeded_max_nr_expanded_states (snd T)
      \<and> stored_history (snd T) \<noteq> []
      \<and> loc_max_nr_stored_states (snd T) = Max (set (stored_history (snd T)))
      \<and> nr_stored (fst T) \<le> loc_max_nr_stored_states (snd T))"

text \<open>
  With a budget \<open>k\<close>, the budget stays \<open>k\<close> and the count of expanded states stays
  within it.
\<close>

definition budget_inv :: "int \<Rightarrow> 's BestFirstSearch \<times> 's solve_locals \<Rightarrow> bool" where
  "budget_inv k T =
     (max_nr_states_to_expand (fst T) = Some k
      \<and> int (loc_nr_expanded_states (snd T)) \<le> max k 0)"

text \<open>
  The node the engine builds for an operator result of the node being expanded, with
  its priority assigned, and the test of the optional filter \<open>open_criterion\<close>.
\<close>

definition scored_successor ::
  "'s strategy \<Rightarrow> 's SearchNode \<Rightarrow> 's OperatorResult \<Rightarrow> 's SearchNode" where
  "scored_successor X n r =
     set_expanding_priority
       (SearchNode_init (successor_state r) (Some n) (operator_result_cost r)
          (operator_result_name r))
       (calc_node_expanding_priority X
          (SearchNode_init (successor_state r) (Some n) (operator_result_cost r)
             (operator_result_name r)))"

definition criterion_accepts :: "'s BestFirstSearch \<Rightarrow> 's SearchNode \<Rightarrow> bool" where
  "criterion_accepts S n = (case open_criterion S of None \<Rightarrow> True | Some crit \<Rightarrow> crit n)"

text \<open>
  The nodes the collections hold, and the contract of an admission method that stores
  no other node than the successor it is offered and nodes that were stored already.
  Under it every stored node has a path that starts at the initial state.
\<close>

definition queue_all_nodes :: "'s SearchNodesPriorityQueue \<Rightarrow> 's SearchNode set" where
  "queue_all_nodes q =
     fst ` set (nodes_queue q) \<union> snd ` set (state_to_search_node_mapping q)"

definition collections_nodes ::
  "'s SearchNodesPriorityQueue \<Rightarrow> 's SearchNodesCollection option \<Rightarrow> 's SearchNode set" where
  "collections_nodes q c =
     queue_all_nodes q
     \<union> (case c of None \<Rightarrow> {} | Some cl \<Rightarrow> snd ` set (close_state_to_search_node_mapping cl))"

definition stored_nodes :: "'s BestFirstSearch \<Rightarrow> 's SearchNode set" where
  "stored_nodes S = (case open S of None \<Rightarrow> {} | Some q \<Rightarrow> collections_nodes q (close S))"

definition admits_only_offered :: "'s strategy \<Rightarrow> 's GraphProblem \<Rightarrow> bool" where
  "admits_only_offered X P =
     (\<forall>n q c q' c'. open_successor_node X P n q c = Inr (q', c') \<longrightarrow>
        collections_nodes q' c' \<subseteq> insert n (collections_nodes q c))"

definition rooted_inv :: "'s \<Rightarrow> 's BestFirstSearch \<times> 's solve_locals \<Rightarrow> bool" where
  "rooted_inv s0 T = (open (fst T) \<noteq> None
     \<and> (\<forall>n \<in> stored_nodes (fst T). hd (make_states_path n) = s0))"

text \<open>
  A sequence of states is a path of the problem when each state is a successor of the
  one before it.
\<close>

fun is_path :: "'s GraphProblem \<Rightarrow> 's list \<Rightarrow> bool" where
  "is_path P [] = False"
| "is_path P [s] = True"
| "is_path P (s # t # rest) =
     (t \<in> set (map successor_state (expand_state_with_costs P s)) \<and> is_path P (t # rest))"

subsection \<open>A concrete problem and a concrete strategy\<close>

text \<open>
  The linear chain \<open>A \<rightarrow> B \<rightarrow> C \<rightarrow> D\<close> of the spec's end-to-end scenarios, with unit
  edge costs and goal \<open>D\<close>, and a uniform-cost strategy: the priority of a node is its
  \<open>g_cost\<close>, and a successor is pushed to \<open>open\<close> unless its state is already stored
  in \<open>open\<close> or in \<open>close\<close>. They are the concrete inputs of the examples below.
\<close>

datatype chain_state = StA | StB | StC | StD

fun chain_successors :: "chain_state \<Rightarrow> chain_state OperatorResult list" where
  "chain_successors StA = [OperatorResult StB 1 None]"
| "chain_successors StB = [OperatorResult StC 1 None]"
| "chain_successors StC = [OperatorResult StD 1 None]"
| "chain_successors StD = []"

fun chain_hash :: "chain_state \<Rightarrow> int" where
  "chain_hash StA = 1"
| "chain_hash StB = 2"
| "chain_hash StC = 3"
| "chain_hash StD = 4"

definition chain_problem :: "chain_state GraphProblem" where
  "chain_problem =
     \<lparr>initial_state = StA, get_zero_cost = 0, is_goal = (\<lambda>s. s = StD),
      expand_state_with_costs = chain_successors, state_hash = chain_hash\<rparr>"

definition first_visit_open_successor_node ::
  "'s GraphProblem \<Rightarrow> 's SearchNode \<Rightarrow> 's SearchNodesPriorityQueue
     \<Rightarrow> 's SearchNodesCollection option
     \<Rightarrow> error + ('s SearchNodesPriorityQueue \<times> 's SearchNodesCollection option)" where
  "first_visit_open_successor_node P n q c =
     (if has_state q (state n)
         \<or> (case c of None \<Rightarrow> False | Some cl \<Rightarrow> close_has_state cl (state n))
      then Inr (q, c)
      else (case push_node (state_hash P) q n of
              Inl e \<Rightarrow> Inl e
            | Inr q' \<Rightarrow> Inr (q', c)))"

definition uniform_cost :: "'s strategy" where
  "uniform_cost =
     \<lparr>calc_node_expanding_priority = g_cost,
      open_successor_node = first_visit_open_successor_node\<rparr>"

definition example_node_B :: "chain_state SearchNode" where
  "example_node_B = SearchNode StB None 2 None 2 (Some 2)"

definition example_node_C :: "chain_state SearchNode" where
  "example_node_C = SearchNode StC None 1 None 1 (Some 1)"

definition example_queue :: "chain_state SearchNodesPriorityQueue" where
  "example_queue =
     \<lparr>nodes_queue = [(example_node_B, (Some 2, - 2, 2)), (example_node_C, (Some 1, - 1, 3))],
      state_to_search_node_mapping = [(StB, example_node_B), (StC, example_node_C)]\<rparr>"

definition example_close :: "chain_state SearchNodesCollection" where
  "example_close = \<lparr>close_state_to_search_node_mapping = [(StB, example_node_B)]\<rparr>"

text \<open>
  An admission method that breaks the contract above: it pushes a copy of the offered
  successor from which the parent link is removed.
\<close>

definition rootless_open_successor_node ::
  "'s GraphProblem \<Rightarrow> 's SearchNode \<Rightarrow> 's SearchNodesPriorityQueue
     \<Rightarrow> 's SearchNodesCollection option
     \<Rightarrow> error + ('s SearchNodesPriorityQueue \<times> 's SearchNodesCollection option)" where
  "rootless_open_successor_node P n q c =
     (case push_node (state_hash P) q
             (SearchNode (state n) None (operator_cost n) (operator_name n) (g_cost n)
                (expanding_priority n)) of
        Inl e \<Rightarrow> Inl e
      | Inr q' \<Rightarrow> Inr (q', c))"

definition rootless_uniform_cost :: "'s strategy" where
  "rootless_uniform_cost =
     \<lparr>calc_node_expanding_priority = g_cost,
      open_successor_node = rootless_open_successor_node\<rparr>"

text \<open>
  The search nodes of the chain as the uniform-cost run builds them, solver objects of
  the chain with given contents of \<open>open\<close> and \<open>close\<close>, and the states in which
  three runs on the chain end: without a budget, with a budget of one expansion, and
  with the budget \<open>-1\<close>.
\<close>

definition chain_node_A :: "chain_state SearchNode" where
  "chain_node_A = SearchNode StA None 0 None 0 (Some 0)"

definition chain_node_B :: "chain_state SearchNode" where
  "chain_node_B = SearchNode StB (Some chain_node_A) 1 None 1 (Some 1)"

definition chain_node_C :: "chain_state SearchNode" where
  "chain_node_C = SearchNode StC (Some chain_node_B) 1 None 2 (Some 2)"

definition chain_node_D :: "chain_state SearchNode" where
  "chain_node_D = SearchNode StD (Some chain_node_C) 1 None 3 (Some 3)"

definition chain_solver :: "int option \<Rightarrow> chain_state BestFirstSearch" where
  "chain_solver k = BestFirstSearch_init True k None"

definition chain_solver_with ::
  "chain_state SearchNode list \<Rightarrow> chain_state SearchNode list \<Rightarrow> int option
     \<Rightarrow> chain_state BestFirstSearch" where
  "chain_solver_with open_nodes close_nodes k =
     \<lparr>open = Some \<lparr>nodes_queue = map (\<lambda>n. (n, node_key_of chain_hash n)) open_nodes,
                   state_to_search_node_mapping = map (\<lambda>n. (state n, n)) open_nodes\<rparr>,
      close = Some \<lparr>close_state_to_search_node_mapping =
                      map (\<lambda>n. (state n, n)) close_nodes\<rparr>,
      use_close = True, max_nr_states_to_expand = k, open_criterion = None,
      max_nr_stored_states = 0\<rparr>"

definition chain_full_solver :: "chain_state BestFirstSearch" where
  "chain_full_solver =
     \<lparr>open = Some \<lparr>nodes_queue = [], state_to_search_node_mapping = []\<rparr>,
      close = Some \<lparr>close_state_to_search_node_mapping =
                [(StA, chain_node_A), (StB, chain_node_B), (StC, chain_node_C),
                 (StD, chain_node_D)]\<rparr>,
      use_close = True, max_nr_states_to_expand = None, open_criterion = None,
      max_nr_stored_states = 0\<rparr>"

definition chain_full_locals :: "chain_state solve_locals" where
  "chain_full_locals =
     \<lparr>final_search_node = Some chain_node_D, loc_nr_expanded_states = 3,
      loc_max_nr_stored_states = 4, exceeded_max_nr_expanded_states = False,
      next_node_to_expand = Some chain_node_D,
      stored_history = [1, 1, 2, 2, 3, 3, 4, 4]\<rparr>"

definition chain_budget_solver :: "chain_state BestFirstSearch" where
  "chain_budget_solver =
     \<lparr>open = Some \<lparr>nodes_queue = [], state_to_search_node_mapping = []\<rparr>,
      close = Some \<lparr>close_state_to_search_node_mapping =
                [(StA, chain_node_A), (StB, chain_node_B)]\<rparr>,
      use_close = True, max_nr_states_to_expand = Some 1, open_criterion = None,
      max_nr_stored_states = 0\<rparr>"

definition chain_budget_locals :: "chain_state solve_locals" where
  "chain_budget_locals =
     \<lparr>final_search_node = None, loc_nr_expanded_states = 1,
      loc_max_nr_stored_states = 2, exceeded_max_nr_expanded_states = True,
      next_node_to_expand = Some chain_node_B,
      stored_history = [1, 1, 2, 2]\<rparr>"

definition chain_negative_solver :: "chain_state BestFirstSearch" where
  "chain_negative_solver =
     \<lparr>open = Some \<lparr>nodes_queue = [], state_to_search_node_mapping = []\<rparr>,
      close = Some \<lparr>close_state_to_search_node_mapping = [(StA, chain_node_A)]\<rparr>,
      use_close = True, max_nr_states_to_expand = Some (- 1), open_criterion = None,
      max_nr_stored_states = 0\<rparr>"

definition chain_negative_result :: "chain_state SearchResult" where
  "chain_negative_result =
     \<lparr>solution_path = None, res_nr_expanded_states = 0, res_max_nr_stored_states = 1,
      stop_reason = ExceededMaxNrStatesToExpand\<rparr>"

text \<open>
  The local variables of the run without a budget at three of its points: when \<open>B\<close>
  is about to be extracted, when \<open>C\<close> has just been extracted and counted, and when
  \<open>D\<close> is about to be extracted.
\<close>

definition chain_locals_before_B :: "chain_state solve_locals" where
  "chain_locals_before_B =
     \<lparr>final_search_node = None, loc_nr_expanded_states = 1,
      loc_max_nr_stored_states = 2, exceeded_max_nr_expanded_states = False,
      next_node_to_expand = Some chain_node_A,
      stored_history = [1, 1, 2]\<rparr>"

definition chain_locals_expanding_C :: "chain_state solve_locals" where
  "chain_locals_expanding_C =
     \<lparr>final_search_node = None, loc_nr_expanded_states = 3,
      loc_max_nr_stored_states = 3, exceeded_max_nr_expanded_states = False,
      next_node_to_expand = Some chain_node_C,
      stored_history = [1, 1, 2, 2, 3, 3]\<rparr>"

definition chain_locals_before_D :: "chain_state solve_locals" where
  "chain_locals_before_D =
     \<lparr>final_search_node = None, loc_nr_expanded_states = 3,
      loc_max_nr_stored_states = 4, exceeded_max_nr_expanded_states = False,
      next_node_to_expand = Some chain_node_C,
      stored_history = [1, 1, 2, 2, 3, 3, 4]\<rparr>"



section \<open>Verification: the collections\<close>

lemma heapdict_min_None: "heapdict_min h = None \<longleftrightarrow> h = []"
  by (induction h) (auto split: option.splits)

lemma heapdict_min_mem: "heapdict_min h = Some e \<Longrightarrow> e \<in> set h"
  by (induction h arbitrary: e) (auto split: option.splits if_splits)

lemma heapdict_min_le_all: "heapdict_min h = Some e \<Longrightarrow> \<forall>e' \<in> set h. snd e \<le> snd e'"
proof (induction h arbitrary: e)
  case Nil
  then show ?case by simp
next
  case (Cons a h)
  show ?case
  proof (cases "heapdict_min h")
    case None
    then have "h = []" by (simp add: heapdict_min_None)
    with Cons.prems None show ?thesis by simp
  next
    case (Some m)
    have m: "\<forall>x \<in> set h. snd m \<le> snd x" using Cons.IH [OF Some] .
    from Cons.prems Some m show ?thesis
      by (auto split: if_splits)
  qed
qed

lemma heapdict_min_le: "heapdict_min h = Some e \<Longrightarrow> e' \<in> set h \<Longrightarrow> snd e \<le> snd e'"
  using heapdict_min_le_all by blast

lemma update_absent: "k \<notin> fst ` set al \<Longrightarrow> AList.update k v al = al @ [(k, v)]"
  by (induction al) auto

lemma set_delete: "set (AList.delete k al) = {e \<in> set al. fst e \<noteq> k}"
  by (auto simp: AList.delete_eq)

lemma map_of_mem_distinct:
  "distinct (map fst al) \<Longrightarrow> map_of al k = Some v \<longleftrightarrow> (k, v) \<in> set al"
  by auto

lemma sync_lookup:
  assumes "queue_sync q"
  shows "get_node_by_state q s = Some n \<longleftrightarrow> n \<in> queue_nodes q \<and> state n = s"
  using assms unfolding queue_sync_def get_node_by_state_def queue_nodes_def
  by (auto simp: map_of_mem_distinct)

lemma sync_has_state:
  assumes "queue_sync q"
  shows "has_state q s \<longleftrightarrow> (\<exists>n \<in> queue_nodes q. state n = s)"
proof -
  have "has_state q s \<longleftrightarrow> (\<exists>n. get_node_by_state q s = Some n)"
    by (simp add: has_state_def get_node_by_state_def)
  then show ?thesis using sync_lookup [OF assms] by blast
qed

lemma queue_sync_init: "queue_sync SearchNodesPriorityQueue_init"
  by (simp add: queue_sync_def SearchNodesPriorityQueue_init_def)

lemma push_node_sync:
  assumes "queue_sync q" "push_node hash q n = Inr q'"
  shows "queue_sync q'" "queue_nodes q' = insert n (queue_nodes q)"
proof -
  let ?m = "state_to_search_node_mapping q" and ?h = "nodes_queue q"
  from assms(2) have absent: "map_of ?m (state n) = None"
    and q': "q' = \<lparr>nodes_queue = heapdict_setitem ?h n (node_key_of hash n),
                   state_to_search_node_mapping = AList.update (state n) n ?m\<rparr>"
    by (auto simp: push_node_def split: if_splits)
  from absent have s_notin: "state n \<notin> fst ` set ?m"
    by (simp add: map_of_eq_None_iff)
  have n_notin: "n \<notin> fst ` set ?h"
  proof
    assume "n \<in> fst ` set ?h"
    with assms(1) have "(state n, n) \<in> set ?m" by (auto simp: queue_sync_def)
    with s_notin show False by force
  qed
  show "queue_sync q'"
    using assms(1) s_notin n_notin
    by (auto simp: q' queue_sync_def heapdict_setitem_def update_absent)
  show "queue_nodes q' = insert n (queue_nodes q)"
    using n_notin by (auto simp: q' queue_nodes_def heapdict_setitem_def update_absent)
qed

lemma remove_entry_sync:
  assumes "queue_sync q" "n \<in> fst ` set (nodes_queue q)"
  shows "queue_sync \<lparr>nodes_queue = AList.delete n (nodes_queue q),
            state_to_search_node_mapping = AList.delete (state n) (state_to_search_node_mapping q)\<rparr>"
proof -
  let ?m = "state_to_search_node_mapping q" and ?h = "nodes_queue q"
  from assms have dm: "distinct (map fst ?m)" and dh: "distinct (map fst ?h)"
    and eq: "set ?m = (\<lambda>n. (state n, n)) ` fst ` set ?h"
    by (auto simp: queue_sync_def)
  from assms(2) eq have nm: "(state n, n) \<in> set ?m" by auto
  have same: "x = n" if "(state n, x) \<in> set ?m" for x
    using dm nm that by (meson eq_key_imp_eq_value)
  have "set (AList.delete (state n) ?m) = (\<lambda>n. (state n, n)) ` fst ` set (AList.delete n ?h)"
  proof (intro set_eqI iffI)
    fix e assume "e \<in> set (AList.delete (state n) ?m)"
    then have em: "e \<in> set ?m" and ne: "fst e \<noteq> state n" by (auto simp: set_delete)
    from em eq obtain x where x: "x \<in> fst ` set ?h" "e = (state x, x)" by auto
    with ne have "x \<noteq> n" by auto
    with x show "e \<in> (\<lambda>n. (state n, n)) ` fst ` set (AList.delete n ?h)"
      by (auto simp: set_delete)
  next
    fix e assume "e \<in> (\<lambda>n. (state n, n)) ` fst ` set (AList.delete n ?h)"
    then obtain x where x: "x \<in> fst ` set ?h" "x \<noteq> n" "e = (state x, x)"
      by (auto simp: set_delete)
    then have em: "e \<in> set ?m" using eq by auto
    have "state x \<noteq> state n"
    proof
      assume "state x = state n"
      with em x(3) have "(state n, x) \<in> set ?m" by simp
      then show False using same x(2) by blast
    qed
    with em x(3) show "e \<in> set (AList.delete (state n) ?m)" by (auto simp: set_delete)
  qed
  then show ?thesis using dm dh
    by (simp add: queue_sync_def distinct_delete)
qed

lemma pop_next_node_Inr:
  assumes "pop_next_node q = Inr (n, q')"
  shows "\<exists>k. heapdict_min (nodes_queue q) = Some (n, k)"
    and "q' = \<lparr>nodes_queue = AList.delete n (nodes_queue q),
               state_to_search_node_mapping =
                 AList.delete (state n) (state_to_search_node_mapping q)\<rparr>"
    and "map_of (state_to_search_node_mapping q) (state n) \<noteq> None"
  using assms
  by (auto simp: pop_next_node_def heapdict_popitem_def dict_del_def
           split: option.splits sum.splits prod.splits)

lemma pop_next_node_succeeds:
  assumes "queue_sync q" "\<not> is_empty q"
  shows "\<exists>n q'. pop_next_node q = Inr (n, q')"
proof -
  from assms(2) have "nodes_queue q \<noteq> []"
    by (simp add: is_empty_def heapdict_empty_def)
  then obtain e where e: "heapdict_min (nodes_queue q) = Some e"
    using heapdict_min_None [of "nodes_queue q"] by auto
  then have "fst e \<in> fst ` set (nodes_queue q)"
    using heapdict_min_mem by fastforce
  with assms(1) have "(state (fst e), fst e) \<in> set (state_to_search_node_mapping q)"
    by (auto simp: queue_sync_def)
  then have "map_of (state_to_search_node_mapping q) (state (fst e)) \<noteq> None"
    by (metis map_of_eq_None_iff fst_conv image_eqI)
  with e show ?thesis
    by (auto simp: pop_next_node_def heapdict_popitem_def dict_del_def split: option.splits)
qed

lemma pop_next_node_sync:
  assumes "queue_sync q" "pop_next_node q = Inr (n, q')"
  shows "queue_sync q'" "n \<in> queue_nodes q" "queue_nodes q' = queue_nodes q - {n}"
proof -
  from pop_next_node_Inr(1) [OF assms(2)] obtain k
    where "heapdict_min (nodes_queue q) = Some (n, k)" by blast
  then have "(n, k) \<in> set (nodes_queue q)" by (rule heapdict_min_mem)
  then have mem: "n \<in> fst ` set (nodes_queue q)" by force
  then show "n \<in> queue_nodes q" by (simp add: queue_nodes_def)
  show "queue_sync q'"
    using remove_entry_sync [OF assms(1) mem] pop_next_node_Inr(2) [OF assms(2)] by simp
  show "queue_nodes q' = queue_nodes q - {n}"
    using pop_next_node_Inr(2) [OF assms(2)]
    by (auto simp: queue_nodes_def set_delete)
qed

lemma extract_node_Inr:
  assumes "extract_node q n = Inr q'"
  shows "n \<in> fst ` set (nodes_queue q)"
    and "q' = \<lparr>nodes_queue = AList.delete n (nodes_queue q),
               state_to_search_node_mapping =
                 AList.delete (state n) (state_to_search_node_mapping q)\<rparr>"
proof -
  from assms obtain p where "map_of (nodes_queue q) n = Some p"
    by (auto simp: extract_node_def heapdict_pop_def dict_del_def
             split: option.splits sum.splits prod.splits)
  then have "(n, p) \<in> set (nodes_queue q)" by (rule map_of_SomeD)
  then show "n \<in> fst ` set (nodes_queue q)" by force
  from assms show "q' = \<lparr>nodes_queue = AList.delete n (nodes_queue q),
               state_to_search_node_mapping =
                 AList.delete (state n) (state_to_search_node_mapping q)\<rparr>"
    by (auto simp: extract_node_def heapdict_pop_def dict_del_def
             split: option.splits sum.splits prod.splits)
qed

lemma extract_node_succeeds:
  assumes "queue_sync q" "get_node_by_state q (state n) = Some n"
  shows "\<exists>q'. extract_node q n = Inr q'"
proof -
  from sync_lookup [OF assms(1)] assms(2) have "n \<in> fst ` set (nodes_queue q)"
    by (simp add: queue_nodes_def)
  then have "map_of (nodes_queue q) n \<noteq> None"
    by (simp add: map_of_eq_None_iff)
  with assms(2) show ?thesis
    by (auto simp: extract_node_def heapdict_pop_def dict_del_def get_node_by_state_def
             split: option.splits)
qed

lemma extract_node_sync:
  assumes "queue_sync q" "extract_node q n = Inr q'"
  shows "queue_sync q'" "queue_nodes q' = queue_nodes q - {n}"
proof -
  show "queue_sync q'"
    using remove_entry_sync [OF assms(1) extract_node_Inr(1) [OF assms(2)]]
      extract_node_Inr(2) [OF assms(2)] by simp
  show "queue_nodes q' = queue_nodes q - {n}"
    using extract_node_Inr(2) [OF assms(2)]
    by (auto simp: queue_nodes_def set_delete)
qed

lemma push_node_succeeds:
  assumes "\<not> has_state q (state n)"
  shows "\<exists>q'. push_node hash q n = Inr q'"
  using assms by (simp add: push_node_def has_state_def)

lemma queue_keys_init: "queue_keys hash SearchNodesPriorityQueue_init"
  by (simp add: queue_keys_def SearchNodesPriorityQueue_init_def)

lemma set_update_subset: "set (AList.update k v al) \<subseteq> insert (k, v) (set al)"
  by (induction al) auto

lemma push_node_keys:
  assumes "queue_keys hash q" "push_node hash q n = Inr q'"
  shows "queue_keys hash q'"
proof -
  from assms(2) have h: "nodes_queue q' = AList.update n (node_key_of hash n) (nodes_queue q)"
    by (auto simp: push_node_def heapdict_setitem_def split: if_splits)
  show ?thesis
    using assms(1) set_update_subset [of n "node_key_of hash n" "nodes_queue q"]
    unfolding queue_keys_def h list_all_iff by fastforce
qed

lemma delete_keys:
  assumes "queue_keys hash q" "nodes_queue q' = AList.delete n (nodes_queue q)"
  shows "queue_keys hash q'"
  using assms unfolding queue_keys_def list_all_iff by (auto simp: set_delete)

lemma pop_next_node_keys:
  assumes "queue_keys hash q" "pop_next_node q = Inr (n, q')"
  shows "queue_keys hash q'"
  using delete_keys [OF assms(1)] pop_next_node_Inr(2) [OF assms(2)] by simp

lemma extract_node_keys:
  assumes "queue_keys hash q" "extract_node q n = Inr q'"
  shows "queue_keys hash q'"
  using delete_keys [OF assms(1)] extract_node_Inr(2) [OF assms(2)] by simp

lemma pop_next_node_least:
  assumes "queue_keys hash q" "pop_next_node q = Inr (n, q')" "m \<in> queue_nodes q"
  shows "node_key_of hash n \<le> node_key_of hash m"
proof -
  from pop_next_node_Inr(1) [OF assms(2)] obtain k
    where k: "heapdict_min (nodes_queue q) = Some (n, k)" by blast
  from assms(3) obtain k' where k': "(m, k') \<in> set (nodes_queue q)"
    by (auto simp: queue_nodes_def)
  from heapdict_min_mem [OF k] assms(1) have "k = node_key_of hash n"
    by (auto simp: queue_keys_def list_all_iff)
  moreover from k' assms(1) have "k' = node_key_of hash m"
    by (auto simp: queue_keys_def list_all_iff)
  moreover from heapdict_min_le [OF k k'] have "k \<le> k'" by simp
  ultimately show ?thesis by simp
qed

lemma apply_queue_op_sync:
  assumes "queue_sync q" "queue_op_pre q op"
  shows "\<exists>q'. apply_queue_op hash q op = Inr q' \<and> queue_sync q'"
proof (cases op)
  case (PushNode n)
  with assms(2) obtain q' where q': "push_node hash q n = Inr q'"
    using push_node_succeeds [of q n hash] by auto
  with push_node_sync(1) [OF assms(1) q'] PushNode show ?thesis by simp
next
  case PopNextNode
  with assms obtain n q' where q': "pop_next_node q = Inr (n, q')"
    using pop_next_node_succeeds [of q] by auto
  with pop_next_node_sync(1) [OF assms(1) q'] PopNextNode show ?thesis by simp
next
  case (ExtractNode n)
  with assms obtain q' where q': "extract_node q n = Inr q'"
    using extract_node_succeeds [of q n] by auto
  with extract_node_sync(1) [OF assms(1) q'] ExtractNode show ?thesis by simp
qed

lemma run_queue_ops_sync:
  assumes "queue_sync q" "queue_ops_pre hash q ops"
  shows "\<exists>q'. run_queue_ops hash q ops = Inr q' \<and> queue_sync q'"
  using assms
proof (induction ops arbitrary: q)
  case Nil
  then show ?case by simp
next
  case (Cons op ops)
  from Cons.prems have pre: "queue_op_pre q op" by simp
  from apply_queue_op_sync [OF Cons.prems(1) pre] obtain q1
    where q1: "apply_queue_op hash q op = Inr q1" "queue_sync q1" by blast
  with Cons.prems(2) have "queue_ops_pre hash q1 ops" by simp
  from Cons.IH [OF q1(2) this] q1(1) show ?case by simp
qed

text \<open>
  Claim C5. Starting from a queue whose state mapping and priority structure are in
  sync (the empty queue is), every sequence of pushes, pops and extractions performed
  under their preconditions runs without raising and leaves the two structures in sync:
  a state is present in the mapping iff a node of that state is in the priority
  structure, and the mapping holds for it that very node.
\<close>

theorem queue_stays_in_sync:
  assumes "queue_sync q" and "queue_ops_pre hash q ops"
  shows "\<exists>q'. run_queue_ops hash q ops = Inr q'
           \<and> queue_sync q'
           \<and> (\<forall>s. has_state q' s \<longleftrightarrow> (\<exists>n \<in> queue_nodes q'. state n = s))
           \<and> (\<forall>s n. get_node_by_state q' s = Some n \<longleftrightarrow> n \<in> queue_nodes q' \<and> state n = s)"
proof -
  from run_queue_ops_sync [OF assms] obtain q'
    where q': "run_queue_ops hash q ops = Inr q'" "queue_sync q'" by blast
  with sync_has_state [OF q'(2)] sync_lookup [OF q'(2)] show ?thesis by blast
qed

theorem queue_stays_in_sync_witness:
  "queue_sync (SearchNodesPriorityQueue_init :: chain_state SearchNodesPriorityQueue)
   \<and> queue_ops_pre chain_hash SearchNodesPriorityQueue_init
        [PushNode example_node_B, PushNode example_node_C, PopNextNode,
         ExtractNode example_node_B]
   \<and> (\<exists>q'. run_queue_ops chain_hash SearchNodesPriorityQueue_init
               [PushNode example_node_B, PushNode example_node_C, PopNextNode,
                ExtractNode example_node_B] = Inr q'
           \<and> queue_sync q'
           \<and> (\<forall>s. has_state q' s \<longleftrightarrow> (\<exists>n \<in> queue_nodes q'. state n = s))
           \<and> (\<forall>s n. get_node_by_state q' s = Some n \<longleftrightarrow> n \<in> queue_nodes q' \<and> state n = s))"
proof -
  have h1: "queue_sync (SearchNodesPriorityQueue_init :: chain_state SearchNodesPriorityQueue)"
    by (simp add: queue_sync_def SearchNodesPriorityQueue_init_def)
  have h2: "queue_ops_pre chain_hash SearchNodesPriorityQueue_init
        [PushNode example_node_B, PushNode example_node_C, PopNextNode,
         ExtractNode example_node_B]"
    by code_simp
  from queue_stays_in_sync [OF h1 h2] h1 h2 show ?thesis by blast
qed

text \<open>
  Claim C2. On a non-empty queue (in sync, every stored priority being the tuple of its
  node), \<open>pop_next_node\<close> returns a node of the queue and removes it, and the tuple
  \<open>(expanding_priority, - g_cost, hash state)\<close> of the returned node is
  lexicographically smallest among the nodes of the queue. The last conjunct writes the
  lexicographic comparison out for scored nodes.
\<close>

theorem pop_next_node_returns_minimum:
  assumes "queue_sync q" and "queue_keys hash q" and "\<not> is_empty q"
  shows "\<exists>n q'. pop_next_node q = Inr (n, q')
           \<and> n \<in> queue_nodes q
           \<and> queue_nodes q' = queue_nodes q - {n}
           \<and> \<not> has_state q' (state n)
           \<and> (\<forall>m \<in> queue_nodes q. node_key_of hash n \<le> node_key_of hash m)
           \<and> (\<forall>m \<in> queue_nodes q. \<forall>a b.
                 expanding_priority n = Some a \<longrightarrow> expanding_priority m = Some b \<longrightarrow>
                 (a < b \<or> (a = b \<and> (- g_cost n < - g_cost m
                    \<or> (- g_cost n = - g_cost m \<and> hash (state n) \<le> hash (state m))))))"
proof -
  from pop_next_node_succeeds [OF assms(1,3)] obtain n q'
    where pop: "pop_next_node q = Inr (n, q')" by blast
  note sync = pop_next_node_sync [OF assms(1) pop]
  have least: "node_key_of hash n \<le> node_key_of hash m" if "m \<in> queue_nodes q" for m
    using pop_next_node_least [OF assms(2) pop that] .
  have gone: "\<not> has_state q' (state n)"
    using pop_next_node_Inr(2) [OF pop]
    by (simp add: has_state_def AList.delete_conv')
  have lex: "a < b \<or> (a = b \<and> (- g_cost n < - g_cost m
                    \<or> (- g_cost n = - g_cost m \<and> hash (state n) \<le> hash (state m))))"
    if "m \<in> queue_nodes q" "expanding_priority n = Some a" "expanding_priority m = Some b"
    for m a b
    using least [OF that(1)] that(2,3)
    by (auto simp: node_key_of_def less_eq_prod_def less_le_not_le)
  from pop sync(2,3) gone least lex show ?thesis by blast
qed

theorem pop_next_node_returns_minimum_witness:
  "queue_sync example_queue \<and> queue_keys chain_hash example_queue \<and> \<not> is_empty example_queue
   \<and> (\<exists>n q'. pop_next_node example_queue = Inr (n, q')
           \<and> n \<in> queue_nodes example_queue
           \<and> queue_nodes q' = queue_nodes example_queue - {n}
           \<and> \<not> has_state q' (state n)
           \<and> (\<forall>m \<in> queue_nodes example_queue.
                 node_key_of chain_hash n \<le> node_key_of chain_hash m)
           \<and> (\<forall>m \<in> queue_nodes example_queue. \<forall>a b.
                 expanding_priority n = Some a \<longrightarrow> expanding_priority m = Some b \<longrightarrow>
                 (a < b \<or> (a = b \<and> (- g_cost n < - g_cost m
                    \<or> (- g_cost n = - g_cost m
                        \<and> chain_hash (state n) \<le> chain_hash (state m)))))))"
proof -
  have h1: "queue_sync example_queue"
    by (simp add: queue_sync_def example_queue_def example_node_B_def example_node_C_def)
  have h2: "queue_keys chain_hash example_queue"
    by (simp add: queue_keys_def example_queue_def example_node_B_def example_node_C_def
          node_key_of_def)
  have h3: "\<not> is_empty example_queue"
    by (simp add: is_empty_def heapdict_empty_def example_queue_def)
  from pop_next_node_returns_minimum [OF h1 h2 h3] h1 h2 h3 show ?thesis by blast
qed

text \<open>
  Claim C7. Every contract violation raises at once and returns no collection:
  \<open>push_node\<close> of a state already in \<open>open\<close>, \<open>add_node\<close> of a state already in
  \<open>close\<close> and \<open>remove_node\<close> of an absent state fail their assertion;
  \<open>extract_node\<close> of a node whose state is absent raises the key error of the
  dictionary; \<open>pop_next_node\<close> on an empty queue raises the error of the heap
  dictionary.
\<close>

theorem contract_violations_fail:
  "(has_state q1 (state n1) \<longrightarrow> push_node hash q1 n1 = Inl AssertionError)
   \<and> (close_has_state c2 (state n2) \<longrightarrow> add_node c2 n2 = Inl AssertionError)
   \<and> (\<not> close_has_state c3 (state n3) \<longrightarrow> remove_node c3 n3 = Inl AssertionError)
   \<and> (\<not> has_state q4 (state n4) \<longrightarrow> extract_node q4 n4 = Inl KeyError)
   \<and> (is_empty q5 \<longrightarrow> pop_next_node q5 = Inl IndexError)"
  by (simp add: has_state_def close_has_state_def push_node_def add_node_def remove_node_def
        extract_node_def dict_del_def is_empty_def heapdict_empty_def pop_next_node_def
        heapdict_popitem_def)

theorem contract_violations_fail_witness:
  "has_state example_queue (state example_node_B)
   \<and> push_node chain_hash example_queue example_node_B = Inl AssertionError
   \<and> close_has_state example_close (state example_node_B)
   \<and> add_node example_close example_node_B = Inl AssertionError
   \<and> \<not> close_has_state SearchNodesCollection_init (state example_node_B)
   \<and> remove_node SearchNodesCollection_init example_node_B = Inl AssertionError
   \<and> \<not> has_state SearchNodesPriorityQueue_init (state example_node_B)
   \<and> extract_node SearchNodesPriorityQueue_init example_node_B = Inl KeyError
   \<and> is_empty (SearchNodesPriorityQueue_init :: chain_state SearchNodesPriorityQueue)
   \<and> pop_next_node (SearchNodesPriorityQueue_init :: chain_state SearchNodesPriorityQueue)
        = Inl IndexError"
proof -
  have h1: "has_state example_queue (state example_node_B)"
    by (simp add: has_state_def example_queue_def example_node_B_def)
  have h2: "close_has_state example_close (state example_node_B)"
    by (simp add: close_has_state_def example_close_def example_node_B_def)
  have h3: "\<not> close_has_state SearchNodesCollection_init (state example_node_B)"
    by (simp add: close_has_state_def SearchNodesCollection_init_def)
  have h4: "\<not> has_state SearchNodesPriorityQueue_init (state example_node_B)"
    by (simp add: has_state_def SearchNodesPriorityQueue_init_def)
  have h5: "is_empty (SearchNodesPriorityQueue_init :: chain_state SearchNodesPriorityQueue)"
    by (simp add: is_empty_def heapdict_empty_def SearchNodesPriorityQueue_init_def)
  from contract_violations_fail
         [of example_queue example_node_B chain_hash example_close example_node_B
             SearchNodesCollection_init example_node_B
             SearchNodesPriorityQueue_init example_node_B SearchNodesPriorityQueue_init]
       h1 h2 h3 h4 h5
  show ?thesis by blast
qed

section \<open>Verification: the engine\<close>

subsection \<open>The rule of the loop\<close>

lemma same_config_refl: "same_config S S"
  by (simp add: same_config_def)

lemma same_config_trans: "same_config S S1 \<Longrightarrow> same_config S1 S2 \<Longrightarrow> same_config S S2"
  by (simp add: same_config_def)

lemma search_loop_rule:
  fixes R :: "'s BestFirstSearch \<times> 's solve_locals"
  assumes run: "search_loop X P SL = Some (Inr R)"
    and init: "I SL"
    and step: "\<And>T T'. I T \<Longrightarrow> loop_iteration X P T = Continue T' \<Longrightarrow> I T'"
  shows "\<exists>T. I T \<and> loop_iteration X P T = Break R"
proof -
  define Q where "Q = (\<lambda>t (out :: error + 's BestFirstSearch \<times> 's solve_locals). fst (fst t) = X \<longrightarrow> snd (fst t) = P \<longrightarrow> I (snd t) \<longrightarrow> out = Inr R
                         \<longrightarrow> (\<exists>T. I T \<and> loop_iteration X P T = Break R))"
  have "Q ((X, P), SL) (Inr R)"
  proof (rule search_loop.raw_induct [where Pa = Q, OF _ run])
    fix loop X' P' SL' out
    assume IH: "\<And>X P SL out. loop X P SL = Some out \<Longrightarrow> Q ((X, P), SL) out"
      and body: "(case loop_iteration X' P' SL' of
                    Break R \<Rightarrow> Some (Inr R)
                  | Continue SL' \<Rightarrow> loop X' P' SL'
                  | Raise e \<Rightarrow> Some (Inl e)) = Some out"
    show "Q ((X', P'), SL') out"
      unfolding Q_def
    proof (intro impI)
      assume "fst (fst ((X', P'), SL')) = X" "snd (fst ((X', P'), SL')) = P"
        and "I (snd ((X', P'), SL'))" and out: "out = Inr R"
      then have eq: "X' = X" "P' = P" and inv: "I SL'" by simp_all
      show "\<exists>T. I T \<and> loop_iteration X P T = Break R"
      proof (cases "loop_iteration X P SL'")
        case (Break R')
        with body eq out have "R' = R" by simp
        with Break inv show ?thesis by blast
      next
        case (Continue T')
        with body eq have "loop X P T' = Some out" by simp
        from IH [OF this] step [OF inv Continue] out show ?thesis
          by (simp add: Q_def)
      next
        case (Raise e)
        with body eq out show ?thesis by simp
      qed
    qed
  qed
  with init show ?thesis by (simp add: Q_def)
qed

subsection \<open>One iteration\<close>

lemma extract_next_None:
  assumes "extract_next_search_node_to_expand S P = Inr (None, S')"
  shows "S' = S" "\<exists>q. open S = Some q \<and> is_empty q"
  using assms unfolding extract_next_search_node_to_expand_def
  by (simp_all split: option.splits if_splits sum.splits prod.splits)

lemma extract_next_Some:
  assumes "extract_next_search_node_to_expand S P = Inr (Some n, S')"
  shows "\<exists>q q'. open S = Some q \<and> \<not> is_empty q \<and> pop_next_node q = Inr (n, q')
           \<and> open S' = Some q'"
    and "use_close S \<Longrightarrow>
           \<exists>c c'. close S = Some c \<and> add_node c n = Inr c' \<and> close S' = Some c'"
    and "\<not> use_close S \<Longrightarrow> close S' = close S"
    and "same_config S S'"
proof -
  from assms obtain q where q: "open S = Some q" "\<not> is_empty q"
    unfolding extract_next_search_node_to_expand_def
    by (simp split: option.splits if_splits)
  with assms obtain q' where pop: "pop_next_node q = Inr (n, q')"
    and rest: "(if use_close S then
                   (case close S of
                      None \<Rightarrow> Inl AttributeError
                    | Some c \<Rightarrow>
                        (case add_node c n of
                           Inl e \<Rightarrow> Inl e
                         | Inr c' \<Rightarrow> Inr (Some n, S\<lparr>open := Some q', close := Some c'\<rparr>)))
                 else Inr (Some n, S\<lparr>open := Some q'\<rparr>)) = Inr (Some n, S')"
    unfolding extract_next_search_node_to_expand_def
    by (simp split: sum.splits prod.splits if_splits option.splits)
  from rest have o': "open S' = Some q'"
    by (auto split: if_splits option.splits sum.splits)
  with q pop show "\<exists>q q'. open S = Some q \<and> \<not> is_empty q \<and> pop_next_node q = Inr (n, q')
           \<and> open S' = Some q'" by blast
  from rest show "use_close S \<Longrightarrow>
           \<exists>c c'. close S = Some c \<and> add_node c n = Inr c' \<and> close S' = Some c'"
    by (auto split: if_splits option.splits sum.splits)
  from rest show "\<not> use_close S \<Longrightarrow> close S' = close S"
    by (auto split: if_splits option.splits sum.splits)
  from rest show "same_config S S'"
    by (auto simp: same_config_def split: if_splits option.splits sum.splits)
qed

lemma get_current_nr_stored_states_Inr:
  "get_current_nr_stored_states S = Inr k \<Longrightarrow> k = nr_stored S \<and> open S \<noteq> None"
  by (auto simp: get_current_nr_stored_states_def nr_stored_def split: option.splits)

lemma call_open_successor_node_Inr:
  assumes "call_open_successor_node X P n S = Inr S'"
  shows "\<exists>q q' c'. open S = Some q \<and> open_successor_node X P n q (close S) = Inr (q', c')
           \<and> S' = S\<lparr>open := Some q', close := c'\<rparr>"
  using assms unfolding call_open_successor_node_def
  by (simp split: option.splits sum.splits prod.splits)

lemma handle_operator_result_cases:
  assumes "handle_operator_result X P n (S, L) r = Inr (S', L')"
  obtains sn where
    "sn = set_expanding_priority
            (SearchNode_init (successor_state r) (Some n) (operator_result_cost r)
               (operator_result_name r))
            (calc_node_expanding_priority X
               (SearchNode_init (successor_state r) (Some n) (operator_result_cost r)
                  (operator_result_name r)))"
    "(case open_criterion S of None \<Rightarrow> True | Some crit \<Rightarrow> crit sn) \<Longrightarrow>
       call_open_successor_node X P sn S = Inr S'"
    "\<not> (case open_criterion S of None \<Rightarrow> True | Some crit \<Rightarrow> crit sn) \<Longrightarrow> S' = S"
    "get_current_nr_stored_states S' = Inr (nr_stored S')"
    "L' = L\<lparr>loc_max_nr_stored_states := max (loc_max_nr_stored_states L) (nr_stored S'),
             stored_history := stored_history L @ [nr_stored S']\<rparr>"
proof -
  define sn where "sn = set_expanding_priority
            (SearchNode_init (successor_state r) (Some n) (operator_result_cost r)
               (operator_result_name r))
            (calc_node_expanding_priority X
               (SearchNode_init (successor_state r) (Some n) (operator_result_cost r)
                  (operator_result_name r)))"
  define res where "res = (if (case open_criterion S of None \<Rightarrow> True | Some crit \<Rightarrow> crit sn)
               then call_open_successor_node X P sn S
               else Inr S)"
  from assms have eq: "(case res of
           Inl e \<Rightarrow> Inl e
         | Inr S' \<Rightarrow>
             (case get_current_nr_stored_states S' of
                Inl e \<Rightarrow> Inl e
              | Inr k \<Rightarrow>
                  Inr (S', L\<lparr>loc_max_nr_stored_states := max (loc_max_nr_stored_states L) k,
                             stored_history := stored_history L @ [k]\<rparr>))) = Inr (S', L')"
    unfolding handle_operator_result_def res_def sn_def by (simp add: Let_def)
  then obtain k where res: "res = Inr S'" and k: "get_current_nr_stored_states S' = Inr k"
    and L': "L' = L\<lparr>loc_max_nr_stored_states := max (loc_max_nr_stored_states L) k,
                             stored_history := stored_history L @ [k]\<rparr>"
    by (auto split: sum.splits)
  from get_current_nr_stored_states_Inr [OF k] have kk: "k = nr_stored S'" by simp
  show ?thesis
  proof (rule that [OF sn_def])
    show "(case open_criterion S of None \<Rightarrow> True | Some crit \<Rightarrow> crit sn) \<Longrightarrow>
       call_open_successor_node X P sn S = Inr S'"
      using res by (simp add: res_def)
    show "\<not> (case open_criterion S of None \<Rightarrow> True | Some crit \<Rightarrow> crit sn) \<Longrightarrow> S' = S"
      using res by (simp add: res_def)
    show "get_current_nr_stored_states S' = Inr (nr_stored S')" using k kk by simp
    show "L' = L\<lparr>loc_max_nr_stored_states := max (loc_max_nr_stored_states L) (nr_stored S'),
             stored_history := stored_history L @ [nr_stored S']\<rparr>"
      using L' kk by simp
  qed
qed

lemma handle_operator_result_config:
  assumes "handle_operator_result X P n (S, L) r = Inr (S', L')"
  shows "same_config S S'" "open S' \<noteq> None"
proof -
  from assms show "same_config S S'"
  proof (cases rule: handle_operator_result_cases)
    case (1 sn)
    show ?thesis
    proof (cases "case open_criterion S of None \<Rightarrow> True | Some crit \<Rightarrow> crit sn")
      case True
      from call_open_successor_node_Inr [OF 1(2) [OF True]] show ?thesis
        by (auto simp: same_config_def)
    next
      case False
      with 1(3) show ?thesis by (simp add: same_config_def)
    qed
  qed
  from assms show "open S' \<noteq> None"
  proof (cases rule: handle_operator_result_cases)
    case (1 sn)
    from get_current_nr_stored_states_Inr [OF 1(4)] show ?thesis by simp
  qed
qed

lemma handle_operator_results_rule:
  assumes step: "\<And>T r T'. J T \<Longrightarrow> handle_operator_result X P n T r = Inr T' \<Longrightarrow> J T'"
  shows "handle_operator_results X P n SL rs = Inr SL' \<Longrightarrow> J SL \<Longrightarrow> J SL'"
proof (induction rs arbitrary: SL)
  case Nil
  then show ?case by simp
next
  case (Cons r rs)
  from Cons.prems(1) obtain T where T: "handle_operator_result X P n SL r = Inr T"
    and rest: "handle_operator_results X P n T rs = Inr SL'"
    by (auto split: sum.splits)
  have "J T" using step [OF Cons.prems(2) T] .
  from Cons.IH [OF rest this] show ?case .
qed

lemma loop_iteration_Break:
  assumes "loop_iteration X P (S, L) = Break (S', L')"
  obtains (exhausted) "extract_next_search_node_to_expand S P = Inr (None, S')"
      "L' = L\<lparr>next_node_to_expand := None,
               stored_history := stored_history L @ [nr_stored S']\<rparr>"
  | (goal) n where "extract_next_search_node_to_expand S P = Inr (Some n, S')"
      "is_goal P (state n)"
      "L' = L\<lparr>next_node_to_expand := Some n,
               stored_history := stored_history L @ [nr_stored S'],
               final_search_node := Some n\<rparr>"
  | (budget) n where "extract_next_search_node_to_expand S P = Inr (Some n, S')"
      "\<not> is_goal P (state n)" "budget_reached S' L"
      "L' = L\<lparr>next_node_to_expand := Some n,
               stored_history := stored_history L @ [nr_stored S'],
               exceeded_max_nr_expanded_states := True\<rparr>"
proof -
  from assms obtain ex S1
    where ex: "extract_next_search_node_to_expand S P = Inr (ex, S1)"
    unfolding loop_iteration_def by (auto split: sum.splits)
  define L1 where "L1 = L\<lparr>next_node_to_expand := ex,
                           stored_history := stored_history L @ [nr_stored S1]\<rparr>"
  have br: "budget_reached S1 L1 = budget_reached S1 L"
    by (simp add: budget_reached_def L1_def split: option.splits)
  from assms ex have body:
    "(case ex of
        None \<Rightarrow> Break (S1, L1)
      | Some n \<Rightarrow>
          if is_goal P (state n) then Break (S1, L1\<lparr>final_search_node := Some n\<rparr>)
          else if budget_reached S1 L1
          then Break (S1, L1\<lparr>exceeded_max_nr_expanded_states := True\<rparr>)
          else
            (case handle_operator_results X P n
                    (S1, L1\<lparr>loc_nr_expanded_states := loc_nr_expanded_states L1 + 1\<rparr>)
                    (expand_state_with_costs P (state n)) of
               Inl e \<Rightarrow> Raise e
             | Inr SL' \<Rightarrow> Continue SL')) = Break (S', L')"
    unfolding loop_iteration_def L1_def by (simp add: Let_def)
  show ?thesis
  proof (cases ex)
    case None
    with body have "S1 = S'" "L' = L1" by simp_all
    with ex None show ?thesis by (intro exhausted) (simp_all add: L1_def)
  next
    case (Some n)
    show ?thesis
    proof (cases "is_goal P (state n)")
      case True
      with body Some have "S1 = S'" "L' = L1\<lparr>final_search_node := Some n\<rparr>" by simp_all
      with ex Some True show ?thesis by (intro goal [of n]) (simp_all add: L1_def)
    next
      case False
      with body Some have b: "budget_reached S1 L1"
        by (auto split: if_splits sum.splits)
      with body Some False
      have "S1 = S'" "L' = L1\<lparr>exceeded_max_nr_expanded_states := True\<rparr>" by simp_all
      with ex Some False b br show ?thesis by (intro budget [of n]) (simp_all add: L1_def)
    qed
  qed
qed

lemma loop_iteration_Continue:
  assumes "loop_iteration X P (S, L) = Continue (S', L')"
  obtains n S1 where "extract_next_search_node_to_expand S P = Inr (Some n, S1)"
      "\<not> is_goal P (state n)" "\<not> budget_reached S1 L"
      "handle_operator_results X P n
         (S1, L\<lparr>next_node_to_expand := Some n,
                 stored_history := stored_history L @ [nr_stored S1],
                 loc_nr_expanded_states := loc_nr_expanded_states L + 1\<rparr>)
         (expand_state_with_costs P (state n)) = Inr (S', L')"
proof -
  from assms obtain ex S1
    where ex: "extract_next_search_node_to_expand S P = Inr (ex, S1)"
    unfolding loop_iteration_def by (auto split: sum.splits)
  define L1 where "L1 = L\<lparr>next_node_to_expand := ex,
                           stored_history := stored_history L @ [nr_stored S1]\<rparr>"
  have br: "budget_reached S1 L1 = budget_reached S1 L"
    by (simp add: budget_reached_def L1_def split: option.splits)
  from assms ex have body:
    "(case ex of
        None \<Rightarrow> Break (S1, L1)
      | Some n \<Rightarrow>
          if is_goal P (state n) then Break (S1, L1\<lparr>final_search_node := Some n\<rparr>)
          else if budget_reached S1 L1
          then Break (S1, L1\<lparr>exceeded_max_nr_expanded_states := True\<rparr>)
          else
            (case handle_operator_results X P n
                    (S1, L1\<lparr>loc_nr_expanded_states := loc_nr_expanded_states L1 + 1\<rparr>)
                    (expand_state_with_costs P (state n)) of
               Inl e \<Rightarrow> Raise e
             | Inr SL' \<Rightarrow> Continue SL')) = Continue (S', L')"
    unfolding loop_iteration_def L1_def by (simp add: Let_def)
  then obtain n where n: "ex = Some n" by (cases ex) simp_all
  with body have ng: "\<not> is_goal P (state n)" and nb: "\<not> budget_reached S1 L1"
    by (auto split: if_splits)
  with body n have "handle_operator_results X P n
                    (S1, L1\<lparr>loc_nr_expanded_states := loc_nr_expanded_states L1 + 1\<rparr>)
                    (expand_state_with_costs P (state n)) = Inr (S', L')"
    by (auto split: sum.splits)
  with ex n ng nb br show ?thesis
    by (intro that [of n S1]) (simp_all add: L1_def)
qed

subsection \<open>The invariant of the run\<close>

lemma solve_run_start: "solve_run X S P = search_loop X P (solve_start X S P)"
  by (cases S) (simp add: solve_run_def solve_start_def Let_def push_node_def
        SearchNodesPriorityQueue_init_def SearchNodesCollection_init_def heapdict_setitem_def
        get_current_nr_stored_states_def queue_len_def close_len_def)

lemma run_inv_start: "run_inv S (solve_start X S P)"
  by (simp add: run_inv_def solve_start_def Let_def same_config_def nr_stored_def
        queue_len_def close_len_def SearchNodesCollection_init_def)

lemma length_delete_less:
  "k \<in> fst ` set al \<Longrightarrow> length (AList.delete k al) < length al"
proof (induction al)
  case Nil
  then show ?case by simp
next
  case (Cons a al)
  have "length (AList.delete k al) \<le> length al"
    by (simp add: AList.delete_eq)
  with Cons show ?case by (cases "fst a = k") auto
qed

lemma add_node_len:
  assumes "add_node c n = Inr c'"
  shows "close_len c' = close_len c + 1" "has_node c' n"
proof -
  from assms have absent: "map_of (close_state_to_search_node_mapping c) (state n) = None"
    and c': "c' = \<lparr>close_state_to_search_node_mapping =
                  AList.update (state n) n (close_state_to_search_node_mapping c)\<rparr>"
    by (auto simp: add_node_def split: if_splits)
  from absent have "state n \<notin> fst ` set (close_state_to_search_node_mapping c)"
    by (simp add: map_of_eq_None_iff)
  then show "close_len c' = close_len c + 1"
    by (simp add: c' close_len_def update_absent)
  show "has_node c' n"
    by (simp add: c' has_node_def update_conv')
qed

lemma pop_next_node_len:
  assumes "pop_next_node q = Inr (n, q')"
  shows "queue_len q' < queue_len q"
proof -
  from pop_next_node_Inr(1) [OF assms] obtain k
    where "heapdict_min (nodes_queue q) = Some (n, k)" by blast
  then have "(n, k) \<in> set (nodes_queue q)" by (rule heapdict_min_mem)
  then have "n \<in> fst ` set (nodes_queue q)" by force
  from length_delete_less [OF this] pop_next_node_Inr(2) [OF assms]
  show ?thesis by (simp add: queue_len_def)
qed

lemma extract_next_nr_stored:
  assumes "extract_next_search_node_to_expand S P = Inr (ex, S')"
  shows "nr_stored S' \<le> nr_stored S"
proof (cases ex)
  case None
  with extract_next_None(1) [of S P S'] assms show ?thesis by simp
next
  case (Some n)
  with assms have ex: "extract_next_search_node_to_expand S P = Inr (Some n, S')" by simp
  from extract_next_Some(1) [OF ex] obtain q q'
    where q: "open S = Some q" "pop_next_node q = Inr (n, q')" "open S' = Some q'" by blast
  note len = pop_next_node_len [OF q(2)]
  show ?thesis
  proof (cases "use_close S")
    case True
    from extract_next_Some(2) [OF ex True] obtain c c'
      where c: "close S = Some c" "add_node c n = Inr c'" "close S' = Some c'" by blast
    from add_node_len(1) [OF c(2)] len q c show ?thesis
      by (simp add: nr_stored_def)
  next
    case False
    from extract_next_Some(3) [OF ex False] len q show ?thesis
      by (simp add: nr_stored_def)
  qed
qed

lemma Max_snoc: "xs \<noteq> [] \<Longrightarrow> Max (set (xs @ [x])) = max (Max (set xs)) (x::nat)"
  by (simp add: Max_insert max.commute)

lemma handle_operator_result_inv:
  assumes "handle_operator_result X P n T r = Inr T'" "run_inv S0 T"
  shows "run_inv S0 T'"
proof -
  obtain S L S' L' where T: "T = (S, L)" "T' = (S', L')" by (cases T, cases T') auto
  with assms(1) have h: "handle_operator_result X P n (S, L) r = Inr (S', L')" by simp
  note cfg = handle_operator_result_config(1) [OF h]
  from h show ?thesis
  proof (cases rule: handle_operator_result_cases)
    case (1 sn)
    with assms(2) cfg show ?thesis
      by (auto simp: run_inv_def T same_config_def Max_snoc)
  qed
qed

lemma handle_operator_result_nr:
  assumes "handle_operator_result X P n T r = Inr T'"
  shows "loc_nr_expanded_states (snd T') = loc_nr_expanded_states (snd T)"
    and "next_node_to_expand (snd T') = next_node_to_expand (snd T)"
proof -
  obtain S L S' L' where T: "T = (S, L)" "T' = (S', L')" by (cases T, cases T') auto
  with assms(1) have h: "handle_operator_result X P n (S, L) r = Inr (S', L')" by simp
  from h show "loc_nr_expanded_states (snd T') = loc_nr_expanded_states (snd T)"
    by (cases rule: handle_operator_result_cases) (simp add: T)
  from h show "next_node_to_expand (snd T') = next_node_to_expand (snd T)"
    by (cases rule: handle_operator_result_cases) (simp add: T)
qed

lemma loop_iteration_inv:
  assumes "run_inv S0 T" "loop_iteration X P T = Continue T'"
  shows "run_inv S0 T'"
proof -
  obtain S L S' L' where T: "T = (S, L)" "T' = (S', L')" by (cases T, cases T') auto
  with assms(2) have c: "loop_iteration X P (S, L) = Continue (S', L')" by simp
  from c show ?thesis
  proof (cases rule: loop_iteration_Continue)
    case (1 n S1)
    note le = extract_next_nr_stored [OF 1(1)]
    note cfg = extract_next_Some(4) [OF 1(1)]
    have "run_inv S0 (S1, L\<lparr>next_node_to_expand := Some n,
                 stored_history := stored_history L @ [nr_stored S1],
                 loc_nr_expanded_states := loc_nr_expanded_states L + 1\<rparr>)"
      using assms(1) le cfg
      by (auto simp: run_inv_def T same_config_def Max_snoc)
    from handle_operator_results_rule [where J = "run_inv S0", OF handle_operator_result_inv 1(4) this]
    show ?thesis by (simp add: T)
  qed
qed

lemma solve_run_final:
  assumes "solve_run X S P = Some (Inr R)"
    and "I (solve_start X S P)"
    and "\<And>T T'. I T \<Longrightarrow> run_inv S T \<Longrightarrow> loop_iteration X P T = Continue T' \<Longrightarrow> I T'"
  obtains T where "run_inv S T" "I T" "loop_iteration X P T = Break R"
proof -
  from assms(1) have run: "search_loop X P (solve_start X S P) = Some (Inr R)"
    by (simp add: solve_run_start)
  have "\<exists>T. (run_inv S T \<and> I T) \<and> loop_iteration X P T = Break R"
  proof (rule search_loop_rule [OF run])
    show "run_inv S (solve_start X S P) \<and> I (solve_start X S P)"
      using run_inv_start assms(2) by blast
  next
    fix T T'
    assume "run_inv S T \<and> I T" "loop_iteration X P T = Continue T'"
    then show "run_inv S T' \<and> I T'"
      using loop_iteration_inv [of S T X P T'] assms(3) [of T T'] by blast
  qed
  with that show ?thesis by blast
qed

subsection \<open>The peak of stored states and the attribute of the solver\<close>

lemma solve_problem_Inr:
  "solve_problem X S P = Some (Inr (S', r)) \<longleftrightarrow>
     (\<exists>L. solve_run X S P = Some (Inr (S', L)) \<and> r = make_result L)"
  by (auto simp: solve_problem_def split: option.splits sum.splits)

lemma solve_run_outcome:
  assumes "solve_run X S P = Some (Inr (S', L'))"
  obtains S0 L0 where "run_inv S (S0, L0)" "loop_iteration X P (S0, L0) = Break (S', L')"
proof -
  from assms obtain T where "run_inv S T" "loop_iteration X P T = Break (S', L')"
    by (rule solve_run_final [where I = "\<lambda>T. True"]) simp_all
  then show ?thesis using that [of "fst T" "snd T"] by simp
qed

lemma final_iteration_history:
  assumes "run_inv S (S0, L0)" "loop_iteration X P (S0, L0) = Break (S', L')"
  shows "stored_history L' = stored_history L0 @ [nr_stored S']"
    and "loc_max_nr_stored_states L' = loc_max_nr_stored_states L0"
    and "loc_nr_expanded_states L' = loc_nr_expanded_states L0"
    and "nr_stored S' \<le> nr_stored S0"
    and "same_config S S'"
proof -
  from assms(2) obtain ex where ex: "extract_next_search_node_to_expand S0 P = Inr (ex, S')"
    by (cases rule: loop_iteration_Break) blast+
  from assms(2) show "stored_history L' = stored_history L0 @ [nr_stored S']"
    by (cases rule: loop_iteration_Break) simp_all
  from assms(2) show "loc_max_nr_stored_states L' = loc_max_nr_stored_states L0"
    by (cases rule: loop_iteration_Break) simp_all
  from assms(2) show "loc_nr_expanded_states L' = loc_nr_expanded_states L0"
    by (cases rule: loop_iteration_Break) simp_all
  from extract_next_nr_stored [OF ex] show "nr_stored S' \<le> nr_stored S0" .
  have "same_config S0 S'"
  proof (cases ex)
    case None
    with extract_next_None(1) [of S0 P S'] ex show ?thesis by (simp add: same_config_refl)
  next
    case (Some n)
    with extract_next_Some(4) [of S0 P n S'] ex show ?thesis by simp
  qed
  with assms(1) show "same_config S S'"
    by (auto simp: run_inv_def intro: same_config_trans)
qed

text \<open>
  Claim C6. For every run that returns, the peak reported in the result is at least the
  value of \<open>len(open) + len(close)\<close> at every point of the run where the engine has
  just changed a collection (the history collects them: after the push of the initial
  node, after every extraction, after every handled successor), it is the maximum of
  these values, and it is at least the number of states stored when the run ends. The
  admission method is one step of the model: what it stores in between is not observed.
\<close>

theorem max_nr_stored_states_is_peak:
  assumes "solve_run X S P = Some (Inr (S', L'))"
  shows "solve_problem X S P = Some (Inr (S', make_result L'))
         \<and> stored_history L' \<noteq> []
         \<and> (\<forall>k \<in> set (stored_history L'). k \<le> res_max_nr_stored_states (make_result L'))
         \<and> res_max_nr_stored_states (make_result L') = Max (set (stored_history L'))
         \<and> nr_stored S' \<le> res_max_nr_stored_states (make_result L')"
proof -
  from assms obtain S0 L0 where inv: "run_inv S (S0, L0)"
    and br: "loop_iteration X P (S0, L0) = Break (S', L')"
    by (rule solve_run_outcome)
  note fin = final_iteration_history [OF inv br]
  from inv have h0: "stored_history L0 \<noteq> []"
    and m0: "loc_max_nr_stored_states L0 = Max (set (stored_history L0))"
    and n0: "nr_stored S0 \<le> loc_max_nr_stored_states L0"
    by (simp_all add: run_inv_def)
  have le: "nr_stored S' \<le> loc_max_nr_stored_states L0" using fin(4) n0 by simp
  have mx: "loc_max_nr_stored_states L' = Max (set (stored_history L'))"
    using fin(1,2) m0 le h0 by (simp add: Max_snoc del: set_append)
  have res: "res_max_nr_stored_states (make_result L') = loc_max_nr_stored_states L'"
    by (simp add: make_result_def)
  have ne: "stored_history L' \<noteq> []" using fin(1) by simp
  have all: "\<forall>k \<in> set (stored_history L'). k \<le> Max (set (stored_history L'))"
    by simp
  from assms have sp: "solve_problem X S P = Some (Inr (S', make_result L'))"
    by (simp add: solve_problem_Inr)
  from sp ne all mx res le fin(2) show ?thesis by simp
qed

text \<open>
  Claim C10. \<open>solve_problem\<close> never assigns the attribute \<open>max_nr_stored_states\<close> of
  the solver object: after a run that returns, the attribute has the value it had
  before, which is \<open>0\<close> for an object as the constructor built it, and the peak of
  stored states is reported by the local variable, through the result only.
\<close>

theorem solve_problem_keeps_attribute:
  assumes "solve_problem X S P = Some (Inr (S', r))"
  shows "max_nr_stored_states S' = max_nr_stored_states S
         \<and> (S = BestFirstSearch_init uc k crit \<longrightarrow> max_nr_stored_states S' = 0)
         \<and> (\<exists>L. solve_run X S P = Some (Inr (S', L))
                \<and> res_max_nr_stored_states r = loc_max_nr_stored_states L)"
proof -
  from assms obtain L where run: "solve_run X S P = Some (Inr (S', L))"
    and r: "r = make_result L"
    by (auto simp: solve_problem_Inr)
  from run obtain S0 L0 where inv: "run_inv S (S0, L0)"
    and br: "loop_iteration X P (S0, L0) = Break (S', L)"
    by (rule solve_run_outcome)
  from final_iteration_history(5) [OF inv br]
  have same: "max_nr_stored_states S' = max_nr_stored_states S"
    by (simp add: same_config_def)
  have "S = BestFirstSearch_init uc k crit \<longrightarrow> max_nr_stored_states S' = 0"
    using same by (simp add: BestFirstSearch_init_def)
  moreover have "res_max_nr_stored_states r = loc_max_nr_stored_states L"
    by (simp add: r make_result_def)
  ultimately show ?thesis using same run by blast
qed

subsection \<open>The expansion budget\<close>

lemma handle_operator_results_frame:
  fixes T :: "'s BestFirstSearch \<times> 's solve_locals"
  assumes "handle_operator_results X P n T rs = Inr T'"
  shows "same_config (fst T) (fst T')"
    and "loc_nr_expanded_states (snd T') = loc_nr_expanded_states (snd T)"
proof -
  define J where "J = (\<lambda>U :: 's BestFirstSearch \<times> 's solve_locals.
     same_config (fst T) (fst U)
     \<and> loc_nr_expanded_states (snd U) = loc_nr_expanded_states (snd T))"
  have step: "J U'" if "J U" "handle_operator_result X P n U r = Inr U'" for U r U'
  proof -
    obtain S L S' L' where U: "U = (S, L)" "U' = (S', L')" by (cases U, cases U') auto
    with that(2) have h: "handle_operator_result X P n (S, L) r = Inr (S', L')" by simp
    from handle_operator_result_config(1) [OF h] handle_operator_result_nr(1) [OF that(2)]
      that(1)
    show ?thesis by (auto simp: J_def U intro: same_config_trans)
  qed
  have "J T" by (simp add: J_def same_config_refl)
  from handle_operator_results_rule [where J = J, OF step assms this]
  show "same_config (fst T) (fst T')"
    and "loc_nr_expanded_states (snd T') = loc_nr_expanded_states (snd T)"
    by (simp_all add: J_def)
qed

lemma loop_iteration_Continue_budget:
  assumes "loop_iteration X P T = Continue T'"
  shows "same_config (fst T) (fst T')"
    and "loc_nr_expanded_states (snd T') = loc_nr_expanded_states (snd T) + 1"
    and "\<And>k. max_nr_states_to_expand (fst T) = Some k \<Longrightarrow>
           int (loc_nr_expanded_states (snd T)) < k"
proof -
  obtain S L S' L' where T: "T = (S, L)" "T' = (S', L')" by (cases T, cases T') auto
  with assms have c: "loop_iteration X P (S, L) = Continue (S', L')" by simp
  from c show "same_config (fst T) (fst T')"
  proof (cases rule: loop_iteration_Continue)
    case (1 n S1)
    from handle_operator_results_frame(1) [OF 1(4)] extract_next_Some(4) [OF 1(1)]
    show ?thesis by (auto simp: T intro: same_config_trans)
  qed
  from c show "loc_nr_expanded_states (snd T') = loc_nr_expanded_states (snd T) + 1"
  proof (cases rule: loop_iteration_Continue)
    case (1 n S1)
    from handle_operator_results_frame(2) [OF 1(4)] show ?thesis by (simp add: T)
  qed
  fix k assume k: "max_nr_states_to_expand (fst T) = Some k"
  from c show "int (loc_nr_expanded_states (snd T)) < k"
  proof (cases rule: loop_iteration_Continue)
    case (1 n S1)
    from extract_next_Some(4) [OF 1(1)] k have "max_nr_states_to_expand S1 = Some k"
      by (simp add: same_config_def T)
    with 1(3) show ?thesis by (simp add: budget_reached_def T)
  qed
qed

lemma budget_inv_step:
  assumes "budget_inv k T" "loop_iteration X P T = Continue T'"
  shows "budget_inv k T'"
proof -
  from assms(1) have k: "max_nr_states_to_expand (fst T) = Some k"
    by (simp add: budget_inv_def)
  from loop_iteration_Continue_budget [OF assms(2)] k
  show ?thesis by (auto simp: budget_inv_def same_config_def)
qed

lemma search_loop_budget_terminates:
  assumes "max_nr_states_to_expand (fst T) = Some k"
  shows "\<exists>out. search_loop X P T = Some out"
  using assms
proof (induction "nat (k - int (loc_nr_expanded_states (snd T)))" arbitrary: T rule: less_induct)
  case less
  show ?case
  proof (cases "loop_iteration X P T")
    case (Break R)
    then show ?thesis by (subst search_loop.simps) simp
  next
    case (Raise e)
    then show ?thesis by (subst search_loop.simps) simp
  next
    case (Continue T')
    note c = loop_iteration_Continue_budget [OF Continue]
    from c(1) less.prems have k': "max_nr_states_to_expand (fst T') = Some k"
      by (simp add: same_config_def)
    from c(2) c(3) [OF less.prems]
    have "nat (k - int (loc_nr_expanded_states (snd T')))
            < nat (k - int (loc_nr_expanded_states (snd T)))" by simp
    from less.hyps [OF this k'] obtain out where "search_loop X P T' = Some out" by blast
    with Continue show ?thesis by (subst search_loop.simps) simp
  qed
qed

lemma solve_run_outcome_cases:
  assumes "solve_run X S P = Some (Inr (S', L'))"
  shows "(final_search_node L' = None \<and> \<not> exceeded_max_nr_expanded_states L'
            \<and> next_node_to_expand L' = None)
       \<or> (\<exists>n. final_search_node L' = Some n \<and> \<not> exceeded_max_nr_expanded_states L'
            \<and> next_node_to_expand L' = Some n \<and> is_goal P (state n))
       \<or> (\<exists>n. final_search_node L' = None \<and> exceeded_max_nr_expanded_states L'
            \<and> next_node_to_expand L' = Some n \<and> \<not> is_goal P (state n))"
proof -
  from assms obtain S0 L0 where inv: "run_inv S (S0, L0)"
    and br: "loop_iteration X P (S0, L0) = Break (S', L')"
    by (rule solve_run_outcome)
  from inv have f: "final_search_node L0 = None" "\<not> exceeded_max_nr_expanded_states L0"
    by (simp_all add: run_inv_def)
  from br f show ?thesis
    by (cases rule: loop_iteration_Break) simp_all
qed

text \<open>
  Claim C3, as amended. With \<open>max_nr_states_to_expand = k\<close> the run always returns or
  raises (it cannot loop), and in a returned result the number of expanded states is at
  most \<open>k\<close> when \<open>k\<close> is not negative, and \<open>0\<close> when it is (at most \<open>max k 0\<close>);
  the stop reason is \<open>ExceededMaxNrStatesToExpand\<close> exactly when no goal node was found
  and the last extraction returned a node (\<open>open\<close> was not exhausted), and
  \<open>CompletedRunSuccessfully\<close> otherwise.
\<close>

theorem budget_enforcement:
  assumes "max_nr_states_to_expand S = Some k"
  shows "(\<exists>out. solve_problem X S P = Some out)
       \<and> (\<forall>S' L'. solve_run X S P = Some (Inr (S', L')) \<longrightarrow>
            solve_problem X S P = Some (Inr (S', make_result L'))
            \<and> int (res_nr_expanded_states (make_result L')) \<le> max k 0
            \<and> stop_reason (make_result L') =
                (if final_search_node L' = None \<and> next_node_to_expand L' \<noteq> None
                 then ExceededMaxNrStatesToExpand else CompletedRunSuccessfully)
            \<and> (solution_path (make_result L') = None \<longleftrightarrow> final_search_node L' = None))"
proof -
  have start: "max_nr_states_to_expand (fst (solve_start X S P)) = Some k"
    using assms by (simp add: solve_start_def Let_def)
  from search_loop_budget_terminates [OF start] obtain out
    where out: "solve_run X S P = Some out" by (auto simp: solve_run_start)
  then have halts: "\<exists>out. solve_problem X S P = Some out"
    by (cases out) (simp_all add: solve_problem_def)
  have res: "solve_problem X S P = Some (Inr (S', make_result L'))
            \<and> int (res_nr_expanded_states (make_result L')) \<le> max k 0
            \<and> stop_reason (make_result L') =
                (if final_search_node L' = None \<and> next_node_to_expand L' \<noteq> None
                 then ExceededMaxNrStatesToExpand else CompletedRunSuccessfully)
            \<and> (solution_path (make_result L') = None \<longleftrightarrow> final_search_node L' = None)"
    if run: "solve_run X S P = Some (Inr (S', L'))" for S' L'
  proof -
    have b0: "budget_inv k (solve_start X S P)"
      using assms by (simp add: budget_inv_def solve_start_def Let_def)
    from run b0 obtain T where T: "budget_inv k T" "loop_iteration X P T = Break (S', L')"
      by (rule solve_run_final [where I = "budget_inv k"]) (auto intro: budget_inv_step)
    obtain S0 L0 where T0: "T = (S0, L0)" by (cases T)
    from T(2) T0 have br: "loop_iteration X P (S0, L0) = Break (S', L')" by simp
    from br have "loc_nr_expanded_states L' = loc_nr_expanded_states L0"
      by (cases rule: loop_iteration_Break) simp_all
    with T(1) T0 have nr: "int (loc_nr_expanded_states L') \<le> max k 0"
      by (simp add: budget_inv_def)
    from solve_run_outcome_cases [OF run]
    have sr: "exceeded_max_nr_expanded_states L' \<longleftrightarrow>
                final_search_node L' = None \<and> next_node_to_expand L' \<noteq> None"
      by auto
    from run have "solve_problem X S P = Some (Inr (S', make_result L'))"
      by (simp add: solve_problem_Inr)
    with nr sr show ?thesis
      by (simp add: make_result_def split: option.splits)
  qed
  from halts res show ?thesis by blast
qed

subsection \<open>Runs on the chain\<close>

lemmas chain_eval_defs =
  solve_run_def search_loop.simps loop_iteration_def Let_def
  extract_next_search_node_to_expand_def handle_operator_result_def
  call_open_successor_node_def get_current_nr_stored_states_def nr_stored_def
  budget_reached_def push_node_def pop_next_node_def add_node_def is_empty_def
  heapdict_popitem_def heapdict_setitem_def heapdict_empty_def dict_del_def
  queue_len_def close_len_def has_state_def close_has_state_def node_key_of_def
  SearchNode_init_def set_expanding_priority_def
  SearchNodesPriorityQueue_init_def SearchNodesCollection_init_def
  BestFirstSearch_init_def chain_solver_def chain_problem_def uniform_cost_def
  first_visit_open_successor_node_def
  chain_node_A_def chain_node_B_def chain_node_C_def chain_node_D_def

lemma chain_budget_run:
  "solve_run uniform_cost (chain_solver (Some 1)) chain_problem
     = Some (Inr (chain_budget_solver, chain_budget_locals))"
  by (simp add: chain_eval_defs chain_budget_solver_def chain_budget_locals_def)

lemma chain_full_run:
  "solve_run uniform_cost (chain_solver None) chain_problem
     = Some (Inr (chain_full_solver, chain_full_locals))"
  by (simp add: chain_eval_defs chain_full_solver_def chain_full_locals_def)

text \<open>
  Claim C3 as stated fails for a negative budget, which the constructor accepts: with
  \<open>max_nr_states_to_expand = -1\<close> the run on the chain expands no state, and \<open>0 \<le> -1\<close>
  is false.
\<close>

theorem budget_enforcement_counterexample:
  "max_nr_states_to_expand (chain_solver (Some (- 1))) = Some (- 1)
   \<and> solve_problem uniform_cost (chain_solver (Some (- 1))) chain_problem
        = Some (Inr (chain_negative_solver, chain_negative_result))
   \<and> \<not> int (res_nr_expanded_states chain_negative_result) \<le> - 1"
  by (simp add: solve_problem_def make_result_def chain_eval_defs
        chain_negative_solver_def chain_negative_result_def)

theorem budget_enforcement_witness:
  "max_nr_states_to_expand (chain_solver (Some 1)) = Some 1
   \<and> solve_run uniform_cost (chain_solver (Some 1)) chain_problem
        = Some (Inr (chain_budget_solver, chain_budget_locals))
   \<and> solve_problem uniform_cost (chain_solver (Some 1)) chain_problem
        = Some (Inr (chain_budget_solver, make_result chain_budget_locals))
   \<and> int (res_nr_expanded_states (make_result chain_budget_locals)) \<le> max 1 0
   \<and> stop_reason (make_result chain_budget_locals) =
        (if final_search_node chain_budget_locals = None
            \<and> next_node_to_expand chain_budget_locals \<noteq> None
         then ExceededMaxNrStatesToExpand else CompletedRunSuccessfully)"
proof -
  have h: "max_nr_states_to_expand (chain_solver (Some 1)) = Some 1"
    by (simp add: chain_solver_def BestFirstSearch_init_def)
  from budget_enforcement [OF h, of uniform_cost chain_problem] chain_budget_run h
  show ?thesis by blast
qed

theorem max_nr_stored_states_is_peak_witness:
  "solve_run uniform_cost (chain_solver None) chain_problem
     = Some (Inr (chain_full_solver, chain_full_locals))
   \<and> stored_history chain_full_locals \<noteq> []
   \<and> 3 \<in> set (stored_history chain_full_locals)
   \<and> 3 \<le> res_max_nr_stored_states (make_result chain_full_locals)
   \<and> res_max_nr_stored_states (make_result chain_full_locals)
        = Max (set (stored_history chain_full_locals))
   \<and> nr_stored chain_full_solver \<le> res_max_nr_stored_states (make_result chain_full_locals)"
proof -
  have mem: "3 \<in> set (stored_history chain_full_locals)"
    by (simp add: chain_full_locals_def)
  from max_nr_stored_states_is_peak [OF chain_full_run] chain_full_run mem
  show ?thesis by blast
qed

theorem solve_problem_keeps_attribute_witness:
  "solve_problem uniform_cost (chain_solver None) chain_problem
     = Some (Inr (chain_full_solver, make_result chain_full_locals))
   \<and> max_nr_stored_states chain_full_solver = 0
   \<and> res_max_nr_stored_states (make_result chain_full_locals) = 4"
proof -
  have run: "solve_problem uniform_cost (chain_solver None) chain_problem
     = Some (Inr (chain_full_solver, make_result chain_full_locals))"
    using chain_full_run by (simp add: solve_problem_Inr)
  have init: "chain_solver None = BestFirstSearch_init True None None"
    by (simp add: chain_solver_def)
  have "res_max_nr_stored_states (make_result chain_full_locals) = 4"
    by (simp add: make_result_def chain_full_locals_def)
  with solve_problem_keeps_attribute [OF run, of True None None] init run
  show ?thesis by blast
qed

subsection \<open>The order of the goal test and the budget test\<close>

lemma loop_iteration_goal:
  assumes "extract_next_search_node_to_expand S P = Inr (Some n, S1)" "is_goal P (state n)"
  shows "loop_iteration X P (S, L) =
           Break (S1, L\<lparr>next_node_to_expand := Some n,
                         stored_history := stored_history L @ [nr_stored S1],
                         final_search_node := Some n\<rparr>)"
  using assms by (simp add: loop_iteration_def)

lemma loop_iteration_budget:
  assumes "extract_next_search_node_to_expand S P = Inr (Some n, S1)"
    "\<not> is_goal P (state n)" "budget_reached S1 L"
  shows "loop_iteration X P (S, L) =
           Break (S1, L\<lparr>next_node_to_expand := Some n,
                         stored_history := stored_history L @ [nr_stored S1],
                         exceeded_max_nr_expanded_states := True\<rparr>)"
  using assms by (simp add: loop_iteration_def budget_reached_def split: option.splits)

text \<open>
  Claim C4. In an iteration the goal test comes before the budget test. If the
  extracted node satisfies the goal predicate the loop ends with that node as the
  solution node, whatever the expansion count and the budget are. If the extracted node
  is not a goal and the budget is reached, the loop ends with the budget flag set, in
  the state the extraction left: the node is not expanded and the count is unchanged.
  A run that ends with the budget flag set has extracted a non-goal node last and has
  no solution node.
\<close>

theorem goal_test_precedes_budget_test:
  "(extract_next_search_node_to_expand S P = Inr (Some n, S1) \<and> is_goal P (state n) \<longrightarrow>
      search_loop X P (S, L) =
        Some (Inr (S1, L\<lparr>next_node_to_expand := Some n,
                           stored_history := stored_history L @ [nr_stored S1],
                           final_search_node := Some n\<rparr>)))
   \<and> (extract_next_search_node_to_expand Sb P = Inr (Some nb, Sb1)
        \<and> \<not> is_goal P (state nb) \<and> budget_reached Sb1 Lb \<longrightarrow>
      search_loop X P (Sb, Lb) =
        Some (Inr (Sb1, Lb\<lparr>next_node_to_expand := Some nb,
                             stored_history := stored_history Lb @ [nr_stored Sb1],
                             exceeded_max_nr_expanded_states := True\<rparr>)))
   \<and> (solve_run X S0 P = Some (Inr (S', L')) \<and> exceeded_max_nr_expanded_states L' \<longrightarrow>
        final_search_node L' = None
        \<and> (\<exists>m. next_node_to_expand L' = Some m \<and> \<not> is_goal P (state m)))"
proof (intro conjI impI)
  assume "extract_next_search_node_to_expand S P = Inr (Some n, S1) \<and> is_goal P (state n)"
  then show "search_loop X P (S, L) =
        Some (Inr (S1, L\<lparr>next_node_to_expand := Some n,
                           stored_history := stored_history L @ [nr_stored S1],
                           final_search_node := Some n\<rparr>))"
    by (subst search_loop.simps) (simp add: loop_iteration_goal)
next
  assume "extract_next_search_node_to_expand Sb P = Inr (Some nb, Sb1)
        \<and> \<not> is_goal P (state nb) \<and> budget_reached Sb1 Lb"
  then show "search_loop X P (Sb, Lb) =
        Some (Inr (Sb1, Lb\<lparr>next_node_to_expand := Some nb,
                             stored_history := stored_history Lb @ [nr_stored Sb1],
                             exceeded_max_nr_expanded_states := True\<rparr>))"
    by (subst search_loop.simps) (simp add: loop_iteration_budget)
next
  assume a: "solve_run X S0 P = Some (Inr (S', L')) \<and> exceeded_max_nr_expanded_states L'"
  with solve_run_outcome_cases [of X S0 P S' L']
  show "final_search_node L' = None" by auto
  from a solve_run_outcome_cases [of X S0 P S' L']
  show "\<exists>m. next_node_to_expand L' = Some m \<and> \<not> is_goal P (state m)" by auto
qed

text \<open>
  Claim C9. When a run with \<open>use_close = True\<close> ends because the budget is exceeded,
  the node extracted last (not a goal) is no longer in \<open>open\<close> and is in \<open>close\<close>,
  put there by the default extraction; the last iteration has not counted it: the
  number of expanded states is the one before that iteration, \<open>max k 0\<close> for the
  budget \<open>k\<close>.
\<close>

theorem budget_exceeded_node_is_closed:
  assumes "use_close S" and "solve_run X S P = Some (Inr (S', L'))"
    and "exceeded_max_nr_expanded_states L'"
  shows "\<exists>n q c k. next_node_to_expand L' = Some n \<and> \<not> is_goal P (state n)
           \<and> open S' = Some q \<and> \<not> has_state q (state n) \<and> n \<notin> queue_nodes q
           \<and> close S' = Some c \<and> has_node c n
           \<and> max_nr_states_to_expand S = Some k
           \<and> k \<le> int (res_nr_expanded_states (make_result L'))
           \<and> int (res_nr_expanded_states (make_result L')) = max k 0
           \<and> (\<exists>S0 L0. extract_next_search_node_to_expand S0 P = Inr (Some n, S')
                 \<and> loop_iteration X P (S0, L0) = Break (S', L')
                 \<and> loc_nr_expanded_states L' = loc_nr_expanded_states L0)"
proof -
  from assms(2) obtain S0 L0 where inv: "run_inv S (S0, L0)"
    and br: "loop_iteration X P (S0, L0) = Break (S', L')"
    by (rule solve_run_outcome)
  from inv have ne: "\<not> exceeded_max_nr_expanded_states L0" by (simp add: run_inv_def)
  from br ne assms(3) have "budget_reached S' L0"
    by (cases rule: loop_iteration_Break) simp_all
  then obtain k where k': "max_nr_states_to_expand S' = Some k"
    by (auto simp: budget_reached_def split: option.splits)
  from final_iteration_history(5) [OF inv br] k' have k: "max_nr_states_to_expand S = Some k"
    by (simp add: same_config_def)
  have b0: "budget_inv k (solve_start X S P)"
    using k by (simp add: budget_inv_def solve_start_def Let_def)
  from assms(2) b0 obtain T where T: "run_inv S T" "budget_inv k T"
    "loop_iteration X P T = Break (S', L')"
    by (rule solve_run_final [where I = "budget_inv k"]) (auto intro: budget_inv_step)
  obtain S1 L1 where T1: "T = (S1, L1)" by (cases T)
  from T T1 have inv1: "run_inv S (S1, L1)" and bi: "budget_inv k (S1, L1)"
    and br1: "loop_iteration X P (S1, L1) = Break (S', L')" by simp_all
  from inv1 have ne1: "\<not> exceeded_max_nr_expanded_states L1"
    and cfg1: "same_config S S1" by (simp_all add: run_inv_def)
  from br1 ne1 assms(3) obtain n
    where ex: "extract_next_search_node_to_expand S1 P = Inr (Some n, S')"
      and ng: "\<not> is_goal P (state n)" and bud: "budget_reached S' L1"
      and L': "L' = L1\<lparr>next_node_to_expand := Some n,
                       stored_history := stored_history L1 @ [nr_stored S'],
                       exceeded_max_nr_expanded_states := True\<rparr>"
    by (cases rule: loop_iteration_Break) simp_all
  from extract_next_Some(1) [OF ex] obtain q q'
    where q: "pop_next_node q = Inr (n, q')" "open S' = Some q'" by blast
  from cfg1 assms(1) have "use_close S1" by (simp add: same_config_def)
  from extract_next_Some(2) [OF ex this] obtain c c'
    where c: "add_node c n = Inr c'" "close S' = Some c'" by blast
  from pop_next_node_Inr(2) [OF q(1)]
  have gone: "\<not> has_state q' (state n)" "n \<notin> queue_nodes q'"
    by (auto simp: has_state_def queue_nodes_def AList.delete_conv' set_delete)
  from bud k' have ge: "k \<le> int (loc_nr_expanded_states L1)"
    by (simp add: budget_reached_def)
  from bi have le: "int (loc_nr_expanded_states L1) \<le> max k 0"
    by (simp add: budget_inv_def)
  from ge le have eq: "int (loc_nr_expanded_states L1) = max k 0" by linarith
  have nr: "res_nr_expanded_states (make_result L') = loc_nr_expanded_states L1"
    by (simp add: make_result_def L')
  have "next_node_to_expand L' = Some n" by (simp add: L')
  moreover have "loc_nr_expanded_states L' = loc_nr_expanded_states L1" by (simp add: L')
  ultimately show ?thesis
    using ng q(2) gone c(2) add_node_len(2) [OF c(1)] k ge eq nr ex br1 by fastforce
qed

lemmas chain_state_defs =
  chain_solver_with_def chain_locals_before_D_def chain_locals_before_B_def
  chain_locals_expanding_C_def chain_full_solver_def chain_full_locals_def
  chain_budget_solver_def chain_budget_locals_def

theorem goal_test_precedes_budget_test_witness:
  "extract_next_search_node_to_expand
       (chain_solver_with [chain_node_D] [chain_node_A, chain_node_B, chain_node_C] (Some 3))
       chain_problem
     = Inr (Some chain_node_D,
            chain_solver_with [] [chain_node_A, chain_node_B, chain_node_C, chain_node_D]
              (Some 3))
   \<and> is_goal chain_problem (state chain_node_D)
   \<and> budget_reached
        (chain_solver_with [] [chain_node_A, chain_node_B, chain_node_C, chain_node_D] (Some 3))
        chain_locals_before_D
   \<and> search_loop uniform_cost chain_problem
        (chain_solver_with [chain_node_D] [chain_node_A, chain_node_B, chain_node_C] (Some 3),
         chain_locals_before_D)
     = Some (Inr (chain_solver_with [] [chain_node_A, chain_node_B, chain_node_C, chain_node_D]
                    (Some 3),
                  chain_locals_before_D
                    \<lparr>next_node_to_expand := Some chain_node_D,
                     stored_history := stored_history chain_locals_before_D
                        @ [nr_stored (chain_solver_with []
                             [chain_node_A, chain_node_B, chain_node_C, chain_node_D] (Some 3))],
                     final_search_node := Some chain_node_D\<rparr>))
   \<and> extract_next_search_node_to_expand
       (chain_solver_with [chain_node_B] [chain_node_A] (Some 1)) chain_problem
     = Inr (Some chain_node_B, chain_solver_with [] [chain_node_A, chain_node_B] (Some 1))
   \<and> \<not> is_goal chain_problem (state chain_node_B)
   \<and> budget_reached (chain_solver_with [] [chain_node_A, chain_node_B] (Some 1))
        chain_locals_before_B
   \<and> search_loop uniform_cost chain_problem
        (chain_solver_with [chain_node_B] [chain_node_A] (Some 1), chain_locals_before_B)
     = Some (Inr (chain_solver_with [] [chain_node_A, chain_node_B] (Some 1),
                  chain_locals_before_B
                    \<lparr>next_node_to_expand := Some chain_node_B,
                     stored_history := stored_history chain_locals_before_B
                        @ [nr_stored (chain_solver_with [] [chain_node_A, chain_node_B]
                                        (Some 1))],
                     exceeded_max_nr_expanded_states := True\<rparr>))
   \<and> solve_run uniform_cost (chain_solver (Some 1)) chain_problem
        = Some (Inr (chain_budget_solver, chain_budget_locals))
   \<and> exceeded_max_nr_expanded_states chain_budget_locals
   \<and> final_search_node chain_budget_locals = None
   \<and> next_node_to_expand chain_budget_locals = Some chain_node_B"
proof -
  have a1: "extract_next_search_node_to_expand
       (chain_solver_with [chain_node_D] [chain_node_A, chain_node_B, chain_node_C] (Some 3))
       chain_problem
     = Inr (Some chain_node_D,
            chain_solver_with [] [chain_node_A, chain_node_B, chain_node_C, chain_node_D]
              (Some 3))"
    by (simp add: chain_eval_defs chain_state_defs)
  have a2: "is_goal chain_problem (state chain_node_D)"
    by (simp add: chain_problem_def chain_node_D_def)
  have a3: "budget_reached
        (chain_solver_with [] [chain_node_A, chain_node_B, chain_node_C, chain_node_D] (Some 3))
        chain_locals_before_D"
    by (simp add: budget_reached_def chain_state_defs)
  have b1: "extract_next_search_node_to_expand
       (chain_solver_with [chain_node_B] [chain_node_A] (Some 1)) chain_problem
     = Inr (Some chain_node_B, chain_solver_with [] [chain_node_A, chain_node_B] (Some 1))"
    by (simp add: chain_eval_defs chain_state_defs)
  have b2: "\<not> is_goal chain_problem (state chain_node_B)"
    by (simp add: chain_problem_def chain_node_B_def)
  have b3: "budget_reached (chain_solver_with [] [chain_node_A, chain_node_B] (Some 1))
        chain_locals_before_B"
    by (simp add: budget_reached_def chain_state_defs)
  have c2: "exceeded_max_nr_expanded_states chain_budget_locals"
    by (simp add: chain_budget_locals_def)
  have c3: "next_node_to_expand chain_budget_locals = Some chain_node_B"
    by (simp add: chain_budget_locals_def)
  note inst = goal_test_precedes_budget_test
    [of "chain_solver_with [chain_node_D] [chain_node_A, chain_node_B, chain_node_C] (Some 3)"
        chain_problem chain_node_D
        "chain_solver_with [] [chain_node_A, chain_node_B, chain_node_C, chain_node_D] (Some 3)"
        uniform_cost chain_locals_before_D
        "chain_solver_with [chain_node_B] [chain_node_A] (Some 1)" chain_node_B
        "chain_solver_with [] [chain_node_A, chain_node_B] (Some 1)" chain_locals_before_B
        "chain_solver (Some 1)" chain_budget_solver chain_budget_locals]
  from inst a1 a2 a3 b1 b2 b3 chain_budget_run c2 c3 show ?thesis by blast
qed

theorem budget_exceeded_node_is_closed_witness:
  "use_close (chain_solver (Some 1))
   \<and> solve_run uniform_cost (chain_solver (Some 1)) chain_problem
        = Some (Inr (chain_budget_solver, chain_budget_locals))
   \<and> exceeded_max_nr_expanded_states chain_budget_locals
   \<and> (\<exists>n q c k. next_node_to_expand chain_budget_locals = Some n
           \<and> \<not> is_goal chain_problem (state n)
           \<and> open chain_budget_solver = Some q \<and> \<not> has_state q (state n)
           \<and> n \<notin> queue_nodes q
           \<and> close chain_budget_solver = Some c \<and> has_node c n
           \<and> max_nr_states_to_expand (chain_solver (Some 1)) = Some k
           \<and> k \<le> int (res_nr_expanded_states (make_result chain_budget_locals))
           \<and> int (res_nr_expanded_states (make_result chain_budget_locals)) = max k 0
           \<and> (\<exists>S0 L0. extract_next_search_node_to_expand S0 chain_problem
                          = Inr (Some n, chain_budget_solver)
                 \<and> loop_iteration uniform_cost chain_problem (S0, L0)
                      = Break (chain_budget_solver, chain_budget_locals)
                 \<and> loc_nr_expanded_states chain_budget_locals = loc_nr_expanded_states L0))"
proof -
  have h1: "use_close (chain_solver (Some 1))"
    by (simp add: chain_solver_def BestFirstSearch_init_def)
  have h3: "exceeded_max_nr_expanded_states chain_budget_locals"
    by (simp add: chain_budget_locals_def)
  from budget_exceeded_node_is_closed [OF h1 chain_budget_run h3] h1 chain_budget_run h3
  show ?thesis by blast
qed

subsection \<open>Where the goal predicate is tested\<close>

lemma handle_operator_result_offers_all:
  assumes "handle_operator_result X P n (S, L) r = Inr (S1, L1)"
  shows "final_search_node L1 = final_search_node L
       \<and> exceeded_max_nr_expanded_states L1 = exceeded_max_nr_expanded_states L
       \<and> (criterion_accepts S (scored_successor X n r) \<longrightarrow>
           call_open_successor_node X P (scored_successor X n r) S = Inr S1)
       \<and> (\<not> criterion_accepts S (scored_successor X n r) \<longrightarrow> S1 = S)"
  using assms
proof (cases rule: handle_operator_result_cases)
  case (1 sn)
  from 1(1) have sn: "sn = scored_successor X n r" by (simp add: scored_successor_def)
  have "final_search_node L1 = final_search_node L" using 1(5) by simp
  moreover have "exceeded_max_nr_expanded_states L1 = exceeded_max_nr_expanded_states L"
    using 1(5) by simp
  moreover have "criterion_accepts S (scored_successor X n r) \<longrightarrow>
           call_open_successor_node X P (scored_successor X n r) S = Inr S1"
    using 1(2) unfolding criterion_accepts_def sn by blast
  moreover have "\<not> criterion_accepts S (scored_successor X n r) \<longrightarrow> S1 = S"
    using 1(3) unfolding criterion_accepts_def sn by blast
  ultimately show ?thesis by blast
qed

lemma handle_operator_result_offers:
  assumes "handle_operator_result X P n (S, L) r = Inr (S1, L1)"
  shows "final_search_node L1 = final_search_node L"
    and "exceeded_max_nr_expanded_states L1 = exceeded_max_nr_expanded_states L"
    and "criterion_accepts S (scored_successor X n r) \<Longrightarrow>
           call_open_successor_node X P (scored_successor X n r) S = Inr S1"
    and "\<not> criterion_accepts S (scored_successor X n r) \<Longrightarrow> S1 = S"
  using handle_operator_result_offers_all [OF assms] by blast+





subsection \<open>The solution path\<close>

lemma make_states_path_sel:
  "make_states_path n =
     (case parent_search_node n of
        None \<Rightarrow> [state n]
      | Some p \<Rightarrow> make_states_path p @ [state n])"
  by (cases n) (simp split: option.splits)

lemma make_states_path_nonempty: "make_states_path n \<noteq> []"
  by (subst make_states_path_sel) (simp split: option.splits)

lemma make_states_path_last: "last (make_states_path n) = state n"
  by (subst make_states_path_sel) (simp split: option.splits)

lemma scored_successor_path:
  "make_states_path (scored_successor X n r) = make_states_path n @ [successor_state r]"
  by (subst make_states_path_sel)
     (simp add: scored_successor_def set_expanding_priority_def SearchNode_init_def)

lemma scored_successor_rooted:
  "hd (make_states_path (scored_successor X n r)) = hd (make_states_path n)"
  by (simp add: scored_successor_path make_states_path_nonempty)

lemma rooted_inv_start: "rooted_inv (initial_state P) (solve_start X S P)"
  by (simp add: rooted_inv_def solve_start_def Let_def stored_nodes_def collections_nodes_def
        queue_all_nodes_def SearchNodesCollection_init_def set_expanding_priority_def
        SearchNode_init_def)

lemma extract_next_stored_nodes:
  assumes "extract_next_search_node_to_expand S P = Inr (Some n, S')"
  shows "n \<in> stored_nodes S" "stored_nodes S' \<subseteq> stored_nodes S" "open S' \<noteq> None"
proof -
  from extract_next_Some(1) [OF assms] obtain q q'
    where q: "open S = Some q" "pop_next_node q = Inr (n, q')" "open S' = Some q'" by blast
  from pop_next_node_Inr(1) [OF q(2)] obtain k
    where "heapdict_min (nodes_queue q) = Some (n, k)" by blast
  then have "(n, k) \<in> set (nodes_queue q)" by (rule heapdict_min_mem)
  then have nq: "n \<in> queue_all_nodes q" by (force simp: queue_all_nodes_def)
  with q(1) show n: "n \<in> stored_nodes S"
    by (simp add: stored_nodes_def collections_nodes_def)
  from pop_next_node_Inr(2) [OF q(2)] have sub: "queue_all_nodes q' \<subseteq> queue_all_nodes q"
    by (auto simp: queue_all_nodes_def set_delete)
  show "open S' \<noteq> None" using q(3) by simp
  show "stored_nodes S' \<subseteq> stored_nodes S"
  proof (cases "use_close S")
    case True
    from extract_next_Some(2) [OF assms True] obtain c c'
      where c: "close S = Some c" "add_node c n = Inr c'" "close S' = Some c'" by blast
    from c(2) have "close_state_to_search_node_mapping c' =
        AList.update (state n) n (close_state_to_search_node_mapping c)"
      by (auto simp: add_node_def split: if_splits)
    with set_update_subset [of "state n" n "close_state_to_search_node_mapping c"]
    have "snd ` set (close_state_to_search_node_mapping c')
            \<subseteq> insert n (snd ` set (close_state_to_search_node_mapping c))"
      by auto
    with sub nq q c show ?thesis
      by (auto simp: stored_nodes_def collections_nodes_def)
  next
    case False
    from extract_next_Some(3) [OF assms False] sub q show ?thesis
      by (auto simp: stored_nodes_def collections_nodes_def)
  qed
qed

lemma call_open_successor_node_stored:
  assumes "admits_only_offered X P" "call_open_successor_node X P n S = Inr S'"
  shows "stored_nodes S' \<subseteq> insert n (stored_nodes S)"
proof -
  from call_open_successor_node_Inr [OF assms(2)] obtain q q' c'
    where q: "open S = Some q" "open_successor_node X P n q (close S) = Inr (q', c')"
      "S' = S\<lparr>open := Some q', close := c'\<rparr>" by blast
  from assms(1) q(2) have "collections_nodes q' c' \<subseteq> insert n (collections_nodes q (close S))"
    unfolding admits_only_offered_def by blast
  with q(1,3) show ?thesis by (simp add: stored_nodes_def)
qed

lemma handle_operator_result_rooted:
  assumes frame: "admits_only_offered X P"
    and root: "hd (make_states_path n) = s0"
    and inv: "rooted_inv s0 T"
    and h: "handle_operator_result X P n T r = Inr T'"
  shows "rooted_inv s0 T'"
proof -
  obtain S L S' L' where T: "T = (S, L)" "T' = (S', L')" by (cases T, cases T') auto
  with h have h': "handle_operator_result X P n (S, L) r = Inr (S', L')" by simp
  note o = handle_operator_result_config(2) [OF h']
  have "stored_nodes S' \<subseteq> insert (scored_successor X n r) (stored_nodes S)"
  proof (cases "criterion_accepts S (scored_successor X n r)")
    case True
    from call_open_successor_node_stored [OF frame handle_operator_result_offers(3) [OF h' True]]
    show ?thesis .
  next
    case False
    from handle_operator_result_offers(4) [OF h' False] show ?thesis by auto
  qed
  with inv root o show ?thesis
    by (auto simp: rooted_inv_def T scored_successor_rooted)
qed

lemma loop_iteration_rooted:
  assumes frame: "admits_only_offered X P"
    and inv: "rooted_inv s0 T" and c: "loop_iteration X P T = Continue T'"
  shows "rooted_inv s0 T'"
proof -
  obtain S L S' L' where T: "T = (S, L)" "T' = (S', L')" by (cases T, cases T') auto
  with c have c': "loop_iteration X P (S, L) = Continue (S', L')" by simp
  from c' show ?thesis
  proof (cases rule: loop_iteration_Continue)
    case (1 n S1)
    note ex = extract_next_stored_nodes [OF 1(1)]
    from inv ex(1) have root: "hd (make_states_path n) = s0"
      by (simp add: rooted_inv_def T)
    from inv ex(2,3) have "rooted_inv s0 (S1, L\<lparr>next_node_to_expand := Some n,
                 stored_history := stored_history L @ [nr_stored S1],
                 loc_nr_expanded_states := loc_nr_expanded_states L + 1\<rparr>)"
      by (auto simp: rooted_inv_def T)
    from handle_operator_results_rule
           [where J = "rooted_inv s0", OF handle_operator_result_rooted [OF frame root] 1(4) this]
    show ?thesis by (simp add: T)
  qed
qed

text \<open>
  Claim C1, as amended. Whenever a run returns a solution path, the path is not empty
  and its last element satisfies the goal predicate; its first element is the problem's
  initial state provided the admission method stores no other node than the successor
  it is offered and nodes that were stored already. The statement holds with
  \<open>use_close\<close> set or not.
\<close>

theorem solution_path_endpoints:
  assumes "solve_problem X S P = Some (Inr (S', r))" and "solution_path r = Some path"
  shows "path \<noteq> [] \<and> is_goal P (last path)
         \<and> (admits_only_offered X P \<longrightarrow> hd path = initial_state P)"
proof -
  from assms(1) obtain L where run: "solve_run X S P = Some (Inr (S', L))"
    and r: "r = make_result L" by (auto simp: solve_problem_Inr)
  from assms(2) r obtain g where g: "final_search_node L = Some g"
    and path: "path = make_states_path g"
    by (auto simp: make_result_def split: option.splits)
  from solve_run_outcome_cases [OF run] g have goal: "is_goal P (state g)" by auto
  have "hd path = initial_state P" if frame: "admits_only_offered X P"
  proof -
    from run rooted_inv_start obtain T where T: "run_inv S T" "rooted_inv (initial_state P) T"
      "loop_iteration X P T = Break (S', L)"
      by (rule solve_run_final [where I = "rooted_inv (initial_state P)"])
         (auto intro: loop_iteration_rooted [OF frame])
    obtain S0 L0 where T0: "T = (S0, L0)" by (cases T)
    from T T0 have f0: "final_search_node L0 = None"
      and br: "loop_iteration X P (S0, L0) = Break (S', L)"
      by (simp_all add: run_inv_def)
    from br f0 g have ex: "extract_next_search_node_to_expand S0 P = Inr (Some g, S')"
      by (cases rule: loop_iteration_Break) simp_all
    from extract_next_stored_nodes(1) [OF ex] T(2) T0 show ?thesis
      by (simp add: rooted_inv_def path)
  qed
  with goal show ?thesis
    by (simp add: path make_states_path_nonempty make_states_path_last)
qed

lemma push_node_all_nodes:
  assumes "push_node hash q n = Inr q'"
  shows "queue_all_nodes q' \<subseteq> insert n (queue_all_nodes q)"
proof -
  from assms have q': "nodes_queue q' = AList.update n (node_key_of hash n) (nodes_queue q)"
    "state_to_search_node_mapping q' =
       AList.update (state n) n (state_to_search_node_mapping q)"
    by (auto simp: push_node_def heapdict_setitem_def split: if_splits)
  have "fst ` set (nodes_queue q') \<subseteq> insert n (fst ` set (nodes_queue q))"
    by (simp add: q'(1) dom_update)
  moreover have "snd ` set (state_to_search_node_mapping q')
                   \<subseteq> insert n (snd ` set (state_to_search_node_mapping q))"
    using set_update_subset [of "state n" n "state_to_search_node_mapping q"]
    by (auto simp: q'(2))
  ultimately show ?thesis by (auto simp: queue_all_nodes_def)
qed

lemma uniform_cost_admits_only_offered: "admits_only_offered uniform_cost P"
  unfolding admits_only_offered_def
proof (intro allI impI)
  fix n q c q' c'
  assume "open_successor_node uniform_cost P n q c = Inr (q', c')"
  then have h: "first_visit_open_successor_node P n q c = Inr (q', c')"
    by (simp add: uniform_cost_def)
  show "collections_nodes q' c' \<subseteq> insert n (collections_nodes q c)"
  proof (cases "has_state q (state n)
         \<or> (case c of None \<Rightarrow> False | Some cl \<Rightarrow> close_has_state cl (state n))")
    case True
    with h have "q' = q" "c' = c" by (simp_all add: first_visit_open_successor_node_def)
    then show ?thesis by auto
  next
    case False
    with h have "push_node (state_hash P) q n = Inr q'" and c: "c' = c"
      by (auto simp: first_visit_open_successor_node_def split: sum.splits)
    from push_node_all_nodes [OF this(1)] c show ?thesis
      by (auto simp: collections_nodes_def)
  qed
qed

theorem solution_path_endpoints_witness:
  "solve_problem uniform_cost (chain_solver None) chain_problem
     = Some (Inr (chain_full_solver, make_result chain_full_locals))
   \<and> solution_path (make_result chain_full_locals) = Some [StA, StB, StC, StD]
   \<and> admits_only_offered uniform_cost chain_problem
   \<and> [StA, StB, StC, StD] \<noteq> []
   \<and> is_goal chain_problem (last [StA, StB, StC, StD])
   \<and> hd [StA, StB, StC, StD] = initial_state chain_problem"
proof -
  have run: "solve_problem uniform_cost (chain_solver None) chain_problem
     = Some (Inr (chain_full_solver, make_result chain_full_locals))"
    using chain_full_run by (simp add: solve_problem_Inr)
  have sp: "solution_path (make_result chain_full_locals) = Some [StA, StB, StC, StD]"
    by (simp add: make_result_def chain_full_locals_def chain_node_A_def chain_node_B_def
          chain_node_C_def chain_node_D_def)
  note frame = uniform_cost_admits_only_offered [of chain_problem]
  from solution_path_endpoints [OF run sp] run sp frame show ?thesis by blast
qed

text \<open>
  Claim C1 as stated fails in two ways. On the chain, whose goal \<open>D\<close> is reachable from
  the initial state, a run with \<open>use_close = True\<close> and a budget of one expansion
  returns no solution path. And with an admission method that stores a copy of the
  offered successor without its parent link, the run returns the path \<open>[D]\<close>, which
  does not start at the initial state.
\<close>

theorem solution_path_endpoints_counterexample:
  "use_close (chain_solver (Some 1))
   \<and> initial_state chain_problem = StA
   \<and> is_path chain_problem [StA, StB, StC, StD]
   \<and> is_goal chain_problem StD
   \<and> solve_problem uniform_cost (chain_solver (Some 1)) chain_problem
        = Some (Inr (chain_budget_solver, make_result chain_budget_locals))
   \<and> solution_path (make_result chain_budget_locals) = None
   \<and> use_close (chain_solver None)
   \<and> map_option (map_sum id (solution_path \<circ> snd))
        (solve_problem rootless_uniform_cost (chain_solver None) chain_problem)
        = Some (Inr (Some [StD]))
   \<and> hd [StD] \<noteq> initial_state chain_problem"
proof -
  have a: "use_close (chain_solver (Some 1))" "use_close (chain_solver None)"
    by (simp_all add: chain_solver_def BestFirstSearch_init_def)
  have b: "initial_state chain_problem = StA" "is_path chain_problem [StA, StB, StC, StD]"
    "is_goal chain_problem StD"
    by (simp_all add: chain_problem_def)
  have c: "solve_problem uniform_cost (chain_solver (Some 1)) chain_problem
        = Some (Inr (chain_budget_solver, make_result chain_budget_locals))"
    using chain_budget_run by (simp add: solve_problem_Inr)
  have d: "solution_path (make_result chain_budget_locals) = None"
    by (simp add: make_result_def chain_budget_locals_def)
  have e: "map_option (map_sum id (solution_path \<circ> snd))
        (solve_problem rootless_uniform_cost (chain_solver None) chain_problem)
        = Some (Inr (Some [StD]))"
    by (simp add: solve_problem_def make_result_def chain_eval_defs
          rootless_uniform_cost_def rootless_open_successor_node_def)
  from a b c d e show ?thesis by simp
qed

end
